theory Spec2Isabelle
  imports Main "HOL-Library.Word"
begin

section \<open>Package logger: data model\<close>

text \<open>
  A Go \<open>byte\<close> is an 8-bit word; a \<open>[]byte\<close> is a list of HOL characters (a HOL
  \<open>char\<close> is one byte). A Go \<open>int\<close> is modelled as \<open>int\<close>: the only integers the
  package computes with are buffer positions and slice lengths, far below \<open>2^63\<close>.
\<close>

type_synonym byte = "8 word"
type_synonym bytes = "char list"

subsection \<open>Level constants and package constants\<close>

text \<open>The \<open>iota\<close> block of logger.go, lines 22-29; every use of a level is at type \<open>byte\<close>.\<close>

definition FatalLevel :: byte where "FatalLevel = 0"
definition ErrorLevel :: byte where "ErrorLevel = 1"
definition WarnLevel :: byte where "WarnLevel = 2"
definition InfoLevel :: byte where "InfoLevel = 3"
definition DebugLevel :: byte where "DebugLevel = 4"
definition TraceLevel :: byte where "TraceLevel = 5"

definition defaulBuffers :: nat where "defaulBuffers = 1000"
definition defaulBufferSize :: int where "defaulBufferSize = 4096"

text \<open>
  \<open>levelStrings\<close> is the package-level map filled by \<open>init\<close>. Reading a Go map at a
  missing key gives the zero value, here the nil slice: \<open>levelStrings_at\<close>.
\<close>

definition levelStrings :: "byte \<rightharpoonup> bytes" where
  "levelStrings =
     [FatalLevel \<mapsto> ''FATAL: '',
      ErrorLevel \<mapsto> ''ERROR: '',
      WarnLevel \<mapsto> ''WARNING: '',
      InfoLevel \<mapsto> ''INFO: '',
      DebugLevel \<mapsto> ''DEBUG: '',
      TraceLevel \<mapsto> ''TRACE: '']"

definition levelStrings_at :: "byte \<Rightarrow> bytes" where
  "levelStrings_at level = (case levelStrings level of None \<Rightarrow> [] | Some s \<Rightarrow> s)"

subsection \<open>Run-time panics\<close>

text \<open>
  The two run-time panics the package can raise: an index outside a slice or array
  (\<open>IndexOutOfRange i\<close>), and slice bounds \<open>[lo:hi]\<close> outside the array.
\<close>

datatype panic = IndexOutOfRange int | SliceBoundsOutOfRange int int

subsection \<open>The formatting buffer\<close>

text \<open>
  \<open>buf\<close> is a fixed array \<open>[defaulBufferSize]byte\<close>: a function from index to byte, of
  which only the indices below \<open>defaulBufferSize\<close> exist; every access is bounds-checked
  as Go checks it.
\<close>

record buffer =
  buf :: "nat \<Rightarrow> char"
  pos :: int

definition buffer_clear :: "buffer \<Rightarrow> buffer" where
  "buffer_clear b = b\<lparr>pos := 0\<rparr>"

definition buffer_get :: "buffer \<Rightarrow> panic + bytes" where
  "buffer_get b =
     (if 0 \<le> pos b \<and> pos b \<le> defaulBufferSize
      then Inr (map (buf b) [0 ..< nat (pos b)])
      else Inl (SliceBoundsOutOfRange 0 (pos b)))"

text \<open>
  \<open>copy(a[lo:hi], src)\<close>: the built-in copies \<open>min (hi - lo) (len src)\<close> bytes of \<open>src\<close> to
  the indices from \<open>lo\<close> on.
\<close>

definition copy_slice :: "(nat \<Rightarrow> char) \<Rightarrow> int \<Rightarrow> int \<Rightarrow> bytes \<Rightarrow> (nat \<Rightarrow> char)" where
  "copy_slice a lo hi src =
     (\<lambda>k. if lo \<le> int k \<and> int k < hi \<and> int k - lo < int (length src)
          then src ! nat (int k - lo) else a k)"

definition buffer_append :: "buffer \<Rightarrow> bytes \<Rightarrow> panic + buffer" where
  "buffer_append b data =
     (let l0 = int (length data);
          l = (if pos b + l0 > defaulBufferSize then defaulBufferSize - pos b else l0)
      in if l > 0
         then (if 0 \<le> pos b \<and> pos b \<le> pos b + l \<and> pos b + l \<le> defaulBufferSize
               then Inr (b\<lparr>buf := copy_slice (buf b) (pos b) (pos b + l) data,
                           pos := pos b + l\<rparr>)
               else Inl (SliceBoundsOutOfRange (pos b) (pos b + l)))
         else Inr b)"

subsection \<open>TestBuffer\<close>

text \<open>
  The test of the buffer: a zero-valued buffer, \<open>defaulBufferSize - 1\<close> appends of the one
  byte \<open>0\<close>, an append of \<open>12\<close>, and the bytes of \<open>get()\<close> from \<open>defaulBufferSize - 5\<close> on.
\<close>

definition zero_buffer :: buffer where
  "zero_buffer = \<lparr>buf = (\<lambda>k. CHR 0x00), pos = 0\<rparr>"

function TestBuffer_loop :: "int \<Rightarrow> buffer \<Rightarrow> panic + buffer" where
  "TestBuffer_loop i b =
     (if i < defaulBufferSize - 1
      then (case buffer_append b ''0'' of
              Inl p \<Rightarrow> Inl p
            | Inr b' \<Rightarrow> TestBuffer_loop (i + 1) b')
      else Inr b)"
  by pat_completeness auto
termination
  by (relation "measure (\<lambda>(i, b). nat (defaulBufferSize - 1 - i))") auto

definition TestBuffer :: "panic + bytes" where
  "TestBuffer =
     (case TestBuffer_loop 0 zero_buffer of
        Inl p \<Rightarrow> Inl p
      | Inr b \<Rightarrow>
         (case buffer_append b ''12'' of
            Inl p \<Rightarrow> Inl p
          | Inr b' \<Rightarrow>
             (case buffer_get b' of
                Inl p \<Rightarrow> Inl p
              | Inr g \<Rightarrow>
                 if defaulBufferSize - 5 \<le> int (length g)
                 then Inr (drop (nat (defaulBufferSize - 5)) g)
                 else Inl (SliceBoundsOutOfRange (defaulBufferSize - 5) (int (length g))))))"

subsection \<open>The environment: files, the sink, the standard logger\<close>

text \<open>
  What the package calls but does not implement is kept in a \<open>world\<close>: which paths
  \<open>os.OpenFile\<close> refuses (\<open>open_error\<close>), the formatted current time
  (\<open>now_format layout\<close> stands for \<open>time.Now().Format(layout)\<close>), the file handles
  that are open, the store of sinks (a \<open>*logwriter.LogWriter\<close> is an address into
  \<open>writers\<close>), the output of the standard library's global logger, and the trace of the
  calls made to the environment, in order.
\<close>

type_synonym os_File = nat
type_synonym addr = nat
type_synonym callback = "nat option"

datatype error = PathError string string | UnknownLogLevel byte

datatype signal = SIGHUP | OtherSignal nat

datatype event =
    EvOpen string os_File
  | EvReset addr os_File
  | EvClose os_File
  | EvWrite addr bytes
  | EvSetOutput addr
  | EvNotify signal
  | EvGo string

text \<open>
  Modelled from the spec: the sink is package logwriter, an external collaborator whose
  source is not part of this repository. Per the sink contract it has a target handle
  \<open>Out\<close> that \<open>Reset\<close> redirects, and \<open>Write\<close> takes a byte range; what it then does
  with the bytes is its own concern, so a write is recorded as the event \<open>EvWrite\<close>.
\<close>

record LogWriter =
  Out :: os_File
  SkipHandler :: callback
  WriteErrorHandler :: callback

record world =
  open_error :: "string \<Rightarrow> string option"
  now_format :: "string \<Rightarrow> bytes"
  next_file :: os_File
  open_files :: "os_File set"
  writers :: "LogWriter list"
  log_output :: "addr option"
  trace :: "event list"

definition os_OpenFile :: "world \<Rightarrow> string \<Rightarrow> (error + os_File) \<times> world" where
  "os_OpenFile w name =
     (case open_error w name of
        Some reason \<Rightarrow> (Inl (PathError name reason), w)
      | None \<Rightarrow>
          (Inr (next_file w),
           w\<lparr>next_file := next_file w + 1,
             open_files := insert (next_file w) (open_files w),
             trace := trace w @ [EvOpen name (next_file w)]\<rparr>))"

definition file_Close :: "world \<Rightarrow> os_File \<Rightarrow> world" where
  "file_Close w f = w\<lparr>open_files := open_files w - {f}, trace := trace w @ [EvClose f]\<rparr>"

definition logwriter_New :: "world \<Rightarrow> os_File \<Rightarrow> callback \<Rightarrow> callback \<Rightarrow> addr \<times> world" where
  "logwriter_New w out sk we =
     (length (writers w),
      w\<lparr>writers := writers w @ [\<lparr>Out = out, SkipHandler = sk, WriteErrorHandler = we\<rparr>]\<rparr>)"

definition logwriter_Reset :: "world \<Rightarrow> addr \<Rightarrow> os_File \<Rightarrow> world" where
  "logwriter_Reset w a f =
     w\<lparr>writers := (writers w)[a := (writers w ! a)\<lparr>Out := f\<rparr>],
       trace := trace w @ [EvReset a f]\<rparr>"

definition logwriter_Write :: "world \<Rightarrow> addr \<Rightarrow> bytes \<Rightarrow> world" where
  "logwriter_Write w a bs = w\<lparr>trace := trace w @ [EvWrite a bs]\<rparr>"

definition log_SetOutput :: "world \<Rightarrow> addr \<Rightarrow> world" where
  "log_SetOutput w a = w\<lparr>log_output := Some a, trace := trace w @ [EvSetOutput a]\<rparr>"

subsection \<open>Channels\<close>

text \<open>
  A buffered channel is the queue of its pending values. A receive on an empty channel
  and a send on a full one block: \<open>None\<close>.
\<close>

definition chan_recv :: "'a list \<Rightarrow> ('a \<times> 'a list) option" where
  "chan_recv ch = (case ch of [] \<Rightarrow> None | x # q \<Rightarrow> Some (x, q))"

definition chan_send :: "nat \<Rightarrow> 'a list \<Rightarrow> 'a \<Rightarrow> 'a list option" where
  "chan_send cap ch x = (if length ch < cap then Some (ch @ [x]) else None)"

subsection \<open>The Logger\<close>

text \<open>
  The fields of \<open>Logger\<close> (\<open>cur_file\<close> is the field \<open>file\<close>). \<open>buffers\<close> is the fixed array
  \<open>[defaulBuffers]buffer\<close>, indexed
  as \<open>buf\<close> is. The two mutexes have no field: each function below is one call running
  alone, and the interleaving of calls is the step relation further down. \<open>timeStr\<close> is
  a pointer to a slice that is only ever replaced whole, so it is the slice.
\<close>

record LoggerConfig =
  Filename :: string
  cfg_SkipHandler :: callback
  cfg_WriteErrorHandler :: callback

record Logger =
  writer :: addr
  buffers :: "nat \<Rightarrow> buffer"
  bufStack :: "nat list"
  skipHandler :: callback
  writeErrorHandler :: callback
  currentLevel :: byte
  timeFormat :: string
  timeStr :: bytes
  filename :: string
  cur_file :: os_File
  signalChan :: "signal list"

definition zero_Logger :: Logger where
  "zero_Logger =
     \<lparr>writer = 0, buffers = (\<lambda>i. zero_buffer), bufStack = [], skipHandler = None,
      writeErrorHandler = None, currentLevel = 0, timeFormat = [], timeStr = [],
      filename = [], cur_file = 0, signalChan = []\<rparr>"

text \<open>The loop of \<open>New\<close> that seeds the channel, lines 129-131.\<close>

function New_seed :: "nat \<Rightarrow> nat list \<Rightarrow> nat list option" where
  "New_seed i ch =
     (if i < defaulBuffers
      then (case chan_send defaulBuffers ch i of
              None \<Rightarrow> None
            | Some ch' \<Rightarrow> New_seed (i + 1) ch')
      else Some ch)"
  by pat_completeness auto
termination
  by (relation "measure (\<lambda>(i, ch). defaulBuffers - i)") auto

declare New_seed.simps [simp del]

text \<open>
  \<open>New\<close>: \<open>None\<close> would be a call that blocks for ever in the seeding loop; otherwise
  the error or the new Logger, and the world after the call.
\<close>

definition New :: "world \<Rightarrow> LoggerConfig \<Rightarrow> ((error + Logger) \<times> world) option" where
  "New w config =
     (let l0 = zero_Logger\<lparr>filename := Filename config,
                           skipHandler := cfg_SkipHandler config,
                           writeErrorHandler := cfg_WriteErrorHandler config\<rparr>
      in case os_OpenFile w (filename l0) of
           (Inl err, w1) \<Rightarrow> Some (Inl err, w1)
         | (Inr f, w1) \<Rightarrow>
            (let l1 = l0\<lparr>currentLevel := InfoLevel,
                         timeFormat := ''2006.01.02 15:04:05.00 ''\<rparr>;
                 l2 = l1\<lparr>timeStr := now_format w1 (timeFormat l1), cur_file := f\<rparr>
             in case logwriter_New w1 (cur_file l2) (skipHandler l2) (writeErrorHandler l2) of
                  (a, w2) \<Rightarrow>
                   (case New_seed 0 [] of
                      None \<Rightarrow> None
                    | Some ch \<Rightarrow>
                       (let l3 = l2\<lparr>writer := a, bufStack := ch\<rparr>;
                            w3 = log_SetOutput w2 (writer l3);
                            l4 = l3\<lparr>signalChan := []\<rparr>;
                            w4 = w3\<lparr>trace := trace w3 @
                                   [EvNotify SIGHUP, EvGo ''updateTime'', EvGo ''signalLoop'']\<rparr>
                        in Some (Inr l4, w4)))))"

definition SetLevel :: "Logger \<Rightarrow> byte \<Rightarrow> error option \<times> Logger" where
  "SetLevel l level =
     (case levelStrings level of
        None \<Rightarrow> (Some (UnknownLogLevel level), l)
      | Some s \<Rightarrow> (None, l\<lparr>currentLevel := level\<rparr>))"

definition SetTimeFormat :: "Logger \<Rightarrow> string \<Rightarrow> Logger" where
  "SetTimeFormat l layout = l\<lparr>timeFormat := layout\<rparr>"

text \<open>
  \<open>Reopen\<close> in its two parts. \<open>Reopen_open\<close> is the open of lines 163-167, which runs
  before \<open>muReopen\<close> is taken; \<open>Reopen_locked\<close> is lines 170-172, which run under the
  lock, on the Logger as it is then. \<open>Reopen\<close> is a call whose two parts run with
  nothing in between.
\<close>

definition Reopen_open :: "world \<Rightarrow> Logger \<Rightarrow> (error + os_File) \<times> world" where
  "Reopen_open w l = os_OpenFile w (filename l)"

definition Reopen_locked :: "world \<Rightarrow> Logger \<Rightarrow> os_File \<Rightarrow> world \<times> Logger" where
  "Reopen_locked w l f =
     (let w2 = logwriter_Reset w (writer l) f;
          w3 = file_Close w2 (cur_file l)
      in (w3, l\<lparr>cur_file := f\<rparr>))"

definition Reopen :: "world \<Rightarrow> Logger \<Rightarrow> error option \<times> world \<times> Logger" where
  "Reopen w l =
     (case Reopen_open w l of
        (Inl err, w1) \<Rightarrow> (Some err, w1, l)
      | (Inr f, w1) \<Rightarrow> (case Reopen_locked w1 l f of (w3, l') \<Rightarrow> (None, w3, l')))"

text \<open>
  Two calls of \<open>Reopen\<close> that overlap, as the call of \<open>signalLoop\<close> on a \<open>SIGHUP\<close> and a
  direct call can: the first call opens its file, the second call opens its file and
  runs its locked part, then the first call runs its locked part. \<open>None\<close> when one of the
  opens fails.
\<close>

definition Reopen_overlap :: "world \<Rightarrow> Logger \<Rightarrow> (world \<times> Logger) option" where
  "Reopen_overlap w l =
     (case Reopen_open w l of
        (Inl err, w1) \<Rightarrow> None
      | (Inr fa, w1) \<Rightarrow>
         (case Reopen_open w1 l of
            (Inl err, w2) \<Rightarrow> None
          | (Inr fb, w2) \<Rightarrow>
             (case Reopen_locked w2 l fb of
                (w3, l3) \<Rightarrow> Some (Reopen_locked w3 l3 fa))))"

text \<open>
  One iteration of \<open>signalLoop\<close>: receive a signal (\<open>None\<close> while there is none), and on
  \<open>SIGHUP\<close> call \<open>Reopen\<close>, dropping its result.
\<close>

definition signalLoop_iter :: "world \<Rightarrow> Logger \<Rightarrow> (world \<times> Logger) option" where
  "signalLoop_iter w l =
     (case chan_recv (signalChan l) of
        None \<Rightarrow> None
      | Some (s, q) \<Rightarrow>
         (case s of
            SIGHUP \<Rightarrow> (case Reopen w (l\<lparr>signalChan := q\<rparr>) of (e, w', l') \<Rightarrow> Some (w', l'))
          | OtherSignal n \<Rightarrow> Some (w, l\<lparr>signalChan := q\<rparr>)))"

text \<open>One tick of \<open>updateTime\<close>; \<open>t\<close> is the tick's time, as its \<open>Format\<close> method.\<close>

definition updateTime_tick :: "(string \<Rightarrow> bytes) \<Rightarrow> Logger \<Rightarrow> Logger" where
  "updateTime_tick t l = l\<lparr>timeStr := t (timeFormat l)\<rparr>"

definition getTime :: "Logger \<Rightarrow> bytes" where
  "getTime l = timeStr l"

subsection \<open>output\<close>

text \<open>
  The buffer methods called on the slot \<open>l.buffers[i]\<close>. A panic carries the Logger
  as it is when the panic is raised.
\<close>

definition slot_clear :: "Logger \<Rightarrow> nat \<Rightarrow> (panic \<times> Logger) + Logger" where
  "slot_clear l i =
     (if i < defaulBuffers
      then Inr (l\<lparr>buffers := (buffers l)(i := buffer_clear (buffers l i))\<rparr>)
      else Inl (IndexOutOfRange (int i), l))"

definition slot_append :: "Logger \<Rightarrow> nat \<Rightarrow> bytes \<Rightarrow> (panic \<times> Logger) + Logger" where
  "slot_append l i data =
     (if i < defaulBuffers
      then (case buffer_append (buffers l i) data of
              Inl p \<Rightarrow> Inl (p, l)
            | Inr b \<Rightarrow> Inr (l\<lparr>buffers := (buffers l)(i := b)\<rparr>))
      else Inl (IndexOutOfRange (int i), l))"

definition slot_get :: "Logger \<Rightarrow> nat \<Rightarrow> panic + bytes" where
  "slot_get l i =
     (if i < defaulBuffers then buffer_get (buffers l i) else Inl (IndexOutOfRange (int i)))"

text \<open>Lines 220-223: clear, then the time, the level's string and the data.\<close>

definition output_compose :: "Logger \<Rightarrow> nat \<Rightarrow> byte \<Rightarrow> bytes \<Rightarrow> (panic \<times> Logger) + Logger" where
  "output_compose l i level data =
     (case slot_clear l i of
        Inl e \<Rightarrow> Inl e
      | Inr l1 \<Rightarrow>
         (case slot_append l1 i (getTime l1) of
            Inl e \<Rightarrow> Inl e
          | Inr l2 \<Rightarrow>
             (case slot_append l2 i (levelStrings_at level) of
                Inl e \<Rightarrow> Inl e
              | Inr l3 \<Rightarrow> slot_append l3 i data)))"

text \<open>Lines 225-227: the byte at index \<open>len - 1\<close> of \<open>get()\<close>, and the newline.\<close>

definition output_newline :: "Logger \<Rightarrow> nat \<Rightarrow> (panic \<times> Logger) + Logger" where
  "output_newline l i =
     (case slot_get l i of
        Inl p \<Rightarrow> Inl (p, l)
      | Inr g \<Rightarrow>
         (let k = int (length g) - 1
          in if 0 \<le> k \<and> k < int (length g)
             then (if g ! nat k \<noteq> CHR 0x0A then slot_append l i [CHR 0x0A] else Inr l)
             else Inl (IndexOutOfRange k, l)))"

text \<open>Lines 220-229: what runs between the receive and the deferred send.\<close>

definition output_body ::
  "world \<Rightarrow> Logger \<Rightarrow> nat \<Rightarrow> byte \<Rightarrow> bytes \<Rightarrow> panic option \<times> world \<times> Logger" where
  "output_body w l i level data =
     (case output_compose l i level data of
        Inl (p, l') \<Rightarrow> (Some p, w, l')
      | Inr l1 \<Rightarrow>
         (case output_newline l1 i of
            Inl (p, l') \<Rightarrow> (Some p, w, l')
          | Inr l2 \<Rightarrow>
             (case slot_get l2 i of
                Inl p \<Rightarrow> (Some p, w, l2)
              | Inr g \<Rightarrow> (None, logwriter_Write w (writer l2) g, l2))))"

text \<open>
  How a call ends: it returns, it panics (after its deferred call has run), or it blocks
  for ever on the channel.
\<close>

datatype exit = Returned world Logger | Panicked panic world Logger | Blocked world Logger

text \<open>The deferred send of line 219; it runs on a return and on a panic alike.\<close>

definition output_release :: "panic option \<Rightarrow> world \<Rightarrow> Logger \<Rightarrow> nat \<Rightarrow> exit" where
  "output_release r w l i =
     (case chan_send defaulBuffers (bufStack l) i of
        None \<Rightarrow> Blocked w l
      | Some ch \<Rightarrow>
         (case r of
            None \<Rightarrow> Returned w (l\<lparr>bufStack := ch\<rparr>)
          | Some p \<Rightarrow> Panicked p w (l\<lparr>bufStack := ch\<rparr>)))"

text \<open>The method \<open>output\<close>, lines 210-230.\<close>

definition Logger_output :: "world \<Rightarrow> Logger \<Rightarrow> byte \<Rightarrow> bytes \<Rightarrow> exit" where
  "Logger_output w l level data =
     (if level > currentLevel l then Returned w l
      else (case chan_recv (bufStack l) of
              None \<Rightarrow> Blocked w l
            | Some (i, ch) \<Rightarrow>
               (case output_body w (l\<lparr>bufStack := ch\<rparr>) i level data of
                  (r, w', l') \<Rightarrow> output_release r w' l' i)))"

definition LogFatal :: "world \<Rightarrow> Logger \<Rightarrow> bytes \<Rightarrow> exit" where
  "LogFatal w l data = Logger_output w l FatalLevel data"

definition LogError :: "world \<Rightarrow> Logger \<Rightarrow> bytes \<Rightarrow> exit" where
  "LogError w l data = Logger_output w l ErrorLevel data"

definition LogWarn :: "world \<Rightarrow> Logger \<Rightarrow> bytes \<Rightarrow> exit" where
  "LogWarn w l data = Logger_output w l WarnLevel data"

definition LogInfo :: "world \<Rightarrow> Logger \<Rightarrow> bytes \<Rightarrow> exit" where
  "LogInfo w l data = Logger_output w l InfoLevel data"

definition LogDebug :: "world \<Rightarrow> Logger \<Rightarrow> bytes \<Rightarrow> exit" where
  "LogDebug w l data = Logger_output w l DebugLevel data"

definition LogTrace :: "world \<Rightarrow> Logger \<Rightarrow> bytes \<Rightarrow> exit" where
  "LogTrace w l data = Logger_output w l TraceLevel data"

subsection \<open>Calls running concurrently\<close>

text \<open>
  Several goroutines call into one Logger. A goroutine is idle, or it is inside a call.
  Inside \<open>output\<close> it is \<open>Waiting level data\<close> when it has passed the comparison of lines
  211-216 and has not yet received from the channel, \<open>Holding i level data\<close> once it has
  received the index \<open>i\<close> (line 218), and \<open>Exiting i r\<close> when lines 220-229 are over, by
  a return (\<open>r = None\<close>) or by a panic, and the deferred send of \<open>i\<close> is still to run.
  Inside \<open>Reopen\<close> it is \<open>Reopening f\<close> when it has opened \<open>f\<close> and has not yet taken
  \<open>muReopen\<close>. The channel operations are atomic in Go, and they are the only accesses
  to \<open>bufStack\<close>; lines 220-229 touch the goroutine's own slot, the time string under
  its lock and the sink, and are taken as one step. \<open>SetLevel\<close>, \<open>SetTimeFormat\<close> and a
  tick of \<open>updateTime\<close> each run under \<open>muUpdate\<close> and are one step.
\<close>

datatype tstate =
    Idle
  | Waiting byte bytes
  | Holding nat byte bytes
  | Exiting nat "panic option"
  | Reopening os_File

type_synonym config = "world \<times> Logger \<times> (nat \<Rightarrow> tstate)"

inductive step :: "config \<Rightarrow> config \<Rightarrow> bool" where
  filtered:
    "thr t = Idle \<Longrightarrow> level > currentLevel l \<Longrightarrow> step (w, l, thr) (w, l, thr)"
| admitted:
    "thr t = Idle \<Longrightarrow> \<not> level > currentLevel l \<Longrightarrow>
     step (w, l, thr) (w, l, thr(t := Waiting level data))"
| acquire:
    "thr t = Waiting level data \<Longrightarrow> chan_recv (bufStack l) = Some (i, ch) \<Longrightarrow>
     step (w, l, thr) (w, l\<lparr>bufStack := ch\<rparr>, thr(t := Holding i level data))"
| body:
    "thr t = Holding i level data \<Longrightarrow> output_body w l i level data = (r, w', l') \<Longrightarrow>
     step (w, l, thr) (w', l', thr(t := Exiting i r))"
| release:
    "thr t = Exiting i r \<Longrightarrow> chan_send defaulBuffers (bufStack l) i = Some ch \<Longrightarrow>
     step (w, l, thr) (w, l\<lparr>bufStack := ch\<rparr>, thr(t := Idle))"
| set_level:
    "SetLevel l level = (e, l') \<Longrightarrow> step (w, l, thr) (w, l', thr)"
| set_time_format:
    "step (w, l, thr) (w, SetTimeFormat l layout, thr)"
| tick:
    "step (w, l, thr) (w, updateTime_tick tm l, thr)"
| reopen_fail:
    "thr t = Idle \<Longrightarrow> Reopen_open w l = (Inl err, w') \<Longrightarrow> step (w, l, thr) (w', l, thr)"
| reopen_open:
    "thr t = Idle \<Longrightarrow> Reopen_open w l = (Inr f, w') \<Longrightarrow>
     step (w, l, thr) (w', l, thr(t := Reopening f))"
| reopen_locked:
    "thr t = Reopening f \<Longrightarrow> Reopen_locked w l f = (w', l') \<Longrightarrow>
     step (w, l, thr) (w', l', thr(t := Idle))"

inductive reachable :: "config \<Rightarrow> bool" where
  init: "New w0 config = Some (Inr l, w) \<Longrightarrow> reachable (w, l, \<lambda>t. Idle)"
| after: "reachable c \<Longrightarrow> step c c' \<Longrightarrow> reachable c'"

text \<open>The index a goroutine holds, and the set of the indices that are checked out.\<close>

fun holds :: "tstate \<Rightarrow> nat option" where
  "holds Idle = None"
| "holds (Waiting level data) = None"
| "holds (Holding i level data) = Some i"
| "holds (Exiting i r) = Some i"
| "holds (Reopening f) = None"

definition checked_out :: "(nat \<Rightarrow> tstate) \<Rightarrow> nat set" where
  "checked_out thr = {i. \<exists>t. holds (thr t) = Some i}"

text \<open>
  The invariant of the pool: no index is twice in the channel, no index in the channel
  is checked out, the indices in the channel and the checked-out ones are together the
  indices \<open>0\<close> to \<open>defaulBuffers - 1\<close>, and no index is held by two goroutines.
\<close>

definition pool_inv :: "config \<Rightarrow> bool" where
  "pool_inv c =
     (case c of (w, l, thr) \<Rightarrow>
        distinct (bufStack l) \<and>
        set (bufStack l) \<inter> checked_out thr = {} \<and>
        set (bufStack l) \<union> checked_out thr = {0 ..< defaulBuffers} \<and>
        (\<forall>t t' i. holds (thr t) = Some i \<and> holds (thr t') = Some i \<longrightarrow> t = t'))"

subsection \<open>A world to run the functions in\<close>

text \<open>
  The world of the tests: the path \<open>/\<close> is a directory, every other path opens; the
  three standard streams are open; no sink exists yet.
\<close>

definition test_world :: world where
  "test_world =
     \<lparr>open_error = (\<lambda>name. if name = ''/'' then Some ''is a directory'' else None),
      now_format = (\<lambda>layout. ''2026.11.01 12:00:00.00 ''),
      next_file = 3, open_files = {0, 1, 2}, writers = [], log_output = None, trace = []\<rparr>"

definition test_config :: LoggerConfig where
  "test_config =
     \<lparr>Filename = ''./TestCreateLogger.log'', cfg_SkipHandler = None,
      cfg_WriteErrorHandler = None\<rparr>"

text \<open>The Logger that \<open>New\<close> returns in that world, and the world after the call.\<close>

definition test_logger :: Logger where
  "test_logger =
     (case New test_world test_config of Some (Inr l, w) \<Rightarrow> l | _ \<Rightarrow> zero_Logger)"

definition test_world_New :: world where
  "test_world_New =
     (case New test_world test_config of Some (Inr l, w) \<Rightarrow> w | _ \<Rightarrow> test_world)"

subsection \<open>The record format of the specification\<close>

text \<open>
  The world and the Logger a call ends with, and the format of a record in the
  specification's words: the timestamp, the level's prefix, the payload, and a newline
  unless these already end with one.
\<close>

fun exit_world :: "exit \<Rightarrow> world" where
  "exit_world (Returned w l) = w"
| "exit_world (Panicked p w l) = w"
| "exit_world (Blocked w l) = w"

fun exit_Logger :: "exit \<Rightarrow> Logger" where
  "exit_Logger (Returned w l) = l"
| "exit_Logger (Panicked p w l) = l"
| "exit_Logger (Blocked w l) = l"

definition spec_record :: "bytes \<Rightarrow> bytes \<Rightarrow> bytes \<Rightarrow> bytes" where
  "spec_record ts prefix payload =
     (let c = ts @ prefix @ payload
      in if c \<noteq> [] \<and> last c = CHR 0x0A then c else c @ [CHR 0x0A])"

section \<open>The buffer\<close>

lemma buffer_append_pos:
  assumes "0 \<le> pos b" "pos b \<le> defaulBufferSize"
  shows "\<exists>b'. buffer_append b data = Inr b' \<and>
           pos b' = pos b + min (int (length data)) (defaulBufferSize - pos b) \<and>
           buf b' = copy_slice (buf b) (pos b)
                      (pos b + min (int (length data)) (defaulBufferSize - pos b)) data"
  using assms
  by (auto simp: buffer_append_def Let_def min_def copy_slice_def fun_eq_iff)

lemma copy_slice_inside:
  assumes "0 \<le> lo" "k < nat (hi - lo)" "k < length src"
  shows "copy_slice a lo hi src (nat lo + k) = src ! k"
  using assms by (auto simp: copy_slice_def)

lemma copy_slice_outside:
  assumes "int k < lo \<or> hi \<le> int k"
  shows "copy_slice a lo hi src k = a k"
  using assms by (auto simp: copy_slice_def)

lemma buffer_get_append:
  assumes "0 \<le> pos b" "pos b \<le> defaulBufferSize"
  shows "\<exists>b'. buffer_append b data = Inr b' \<and> 0 \<le> pos b' \<and> pos b' \<le> defaulBufferSize \<and>
           buffer_get b' = Inr (map (buf b) [0 ..< nat (pos b)] @ take (nat (defaulBufferSize - pos b)) data)"
proof -
  let ?n = "min (int (length data)) (defaulBufferSize - pos b)"
  obtain b' where b': "buffer_append b data = Inr b'" "pos b' = pos b + ?n"
     "buf b' = copy_slice (buf b) (pos b) (pos b + ?n) data"
    using buffer_append_pos[OF assms] by blast
  have n0: "0 \<le> ?n" using assms by simp
  have nn: "nat ?n = min (length data) (nat (defaulBufferSize - pos b))"
    using assms by (simp add: min_def) linarith
  have len: "nat (pos b') = nat (pos b) + nat ?n"
    using assms n0 b'(2) by (simp add: nat_add_distrib)
  have "map (buf b') [0 ..< nat (pos b')] = map (buf b) [0 ..< nat (pos b)] @ take (nat (defaulBufferSize - pos b)) data"
  proof (rule nth_equalityI)
    show "length (map (buf b') [0 ..< nat (pos b')]) = length (map (buf b) [0 ..< nat (pos b)] @ take (nat (defaulBufferSize - pos b)) data)"
      using len nn by simp
  next
    fix k assume "k < length (map (buf b') [0 ..< nat (pos b')])"
    then have k: "k < nat (pos b) + nat ?n" using len by simp
    show "map (buf b') [0 ..< nat (pos b')] ! k = (map (buf b) [0 ..< nat (pos b)] @ take (nat (defaulBufferSize - pos b)) data) ! k"
    proof (cases "k < nat (pos b)")
      case True
      then have "int k < pos b" by linarith
      then have "buf b' k = buf b k" unfolding b'(3) by (simp add: copy_slice_outside)
      then show ?thesis using True k len by (simp add: nth_append)
    next
      case False
      then obtain j where j: "k = nat (pos b) + j" "j < nat ?n"
        using k by (metis add_diff_inverse_nat nat_add_left_cancel_less)
      have "buf b' k = data ! j"
        unfolding j(1) b'(3) using j(2) assms nn
        by (intro copy_slice_inside) auto
      then show ?thesis using j len nn by (simp add: nth_append)
    qed
  qed
  then show ?thesis using b' assms n0 by (auto simp: buffer_get_def)
qed

lemma buffer_get_Inr_iff:
  "buffer_get b = Inr g \<longleftrightarrow>
     0 \<le> pos b \<and> pos b \<le> defaulBufferSize \<and> g = map (buf b) [0 ..< nat (pos b)]"
  by (auto simp: buffer_get_def)

lemma buffer_append_get:
  assumes "buffer_get b = Inr g"
  shows "\<exists>b'. buffer_append b data = Inr b' \<and>
           buffer_get b' = Inr (g @ take (nat defaulBufferSize - length g) data)"
proof -
  from assms have b: "0 \<le> pos b" "pos b \<le> defaulBufferSize"
    and g: "g = map (buf b) [0 ..< nat (pos b)]"
    by (simp_all add: buffer_get_Inr_iff)
  have "nat (defaulBufferSize - pos b) = nat defaulBufferSize - length g"
    using b g by (simp add: nat_diff_distrib)
  then show ?thesis using buffer_get_append [OF b, of data] g by auto
qed

lemma buffer_get_length:
  "buffer_get b = Inr g \<Longrightarrow> int (length g) = pos b"
  by (auto simp: buffer_get_def split: if_splits)

lemma TestBuffer_loop_zeros:
  assumes "buffer_get b = Inr (replicate (nat i) CHR ''0'')" "0 \<le> i" "i \<le> defaulBufferSize - 1"
  shows "\<exists>b'. TestBuffer_loop i b = Inr b' \<and>
           buffer_get b' = Inr (replicate (nat (defaulBufferSize - 1)) CHR ''0'')"
  using assms
proof (induction i b rule: TestBuffer_loop.induct)
  case (1 i b)
  show ?case
  proof (cases "i < defaulBufferSize - 1")
    case False
    with "1.prems" have "i = defaulBufferSize - 1" by simp
    with "1.prems" show ?thesis by simp
  next
    case True
    obtain b' where b': "buffer_append b ''0'' = Inr b'"
      "buffer_get b' = Inr (replicate (nat i) CHR ''0'' @
          take (nat defaulBufferSize - length (replicate (nat i) CHR ''0'')) ''0'')"
      using buffer_append_get [OF "1.prems"(1), of "''0''"] by blast
    have "nat defaulBufferSize - nat i > 0" using True "1.prems"(2) by linarith
    then have "take (nat defaulBufferSize - length (replicate (nat i) CHR ''0'')) ''0'' = ''0''"
      by (cases "nat defaulBufferSize - nat i") simp_all
    then have "buffer_get b' = Inr (replicate (nat i) CHR ''0'' @ ''0'')"
      using b'(2) by simp
    also have "replicate (nat i) CHR ''0'' @ ''0'' = replicate (nat (i + 1)) CHR ''0''"
      using "1.prems"(2) by (simp add: nat_add_distrib replicate_append_same)
    finally have get': "buffer_get b' = Inr (replicate (nat (i + 1)) CHR ''0'')" .
    have "\<exists>b''. TestBuffer_loop (i + 1) b' = Inr b'' \<and>
           buffer_get b'' = Inr (replicate (nat (defaulBufferSize - 1)) CHR ''0'')"
      using "1.IH" [OF True b'(1) get'] True "1.prems"(2) by simp
    then show ?thesis using True b'(1) by simp
  qed
qed

lemma zero_buffer_get: "buffer_get zero_buffer = Inr []"
  by (simp add: buffer_get_def zero_buffer_def defaulBufferSize_def)

lemma TestBuffer_value: "TestBuffer = Inr ''00001''"
proof -
  obtain b where b: "TestBuffer_loop 0 zero_buffer = Inr b"
    "buffer_get b = Inr (replicate (nat (defaulBufferSize - 1)) CHR ''0'')"
    using TestBuffer_loop_zeros [of zero_buffer 0]
    by (auto simp: zero_buffer_get defaulBufferSize_def)
  obtain b' where b': "buffer_append b ''12'' = Inr b'"
    "buffer_get b' = Inr (replicate (nat (defaulBufferSize - 1)) CHR ''0'' @
        take (nat defaulBufferSize - length (replicate (nat (defaulBufferSize - 1)) CHR ''0'')) ''12'')"
    using buffer_append_get [OF b(2), of "''12''"] by blast
  have g: "buffer_get b' = Inr (replicate 4095 CHR ''0'' @ ''1'')"
    using b'(2) by (simp add: defaulBufferSize_def)
  have "drop 4091 (replicate 4095 CHR ''0'' @ ''1'') = replicate 4 CHR ''0'' @ ''1''"
    by simp
  then show ?thesis
    using b(1) b'(1) g by (simp add: TestBuffer_def defaulBufferSize_def numeral_eq_Suc)
qed

text \<open>
  C3. From a buffer whose position is between 0 and the capacity, \<open>append\<close> raises
  nothing; it copies the first \<open>min (len data) (capacity - pos)\<close> bytes of the data to
  the indices from \<open>pos\<close> on, advances \<open>pos\<close> by that number, so never past the
  capacity, and leaves every other byte as it was. And \<open>TestBuffer\<close>, the
  \<open>capacity - 1\<close> appends of \<open>0\<close> followed by the append of \<open>12\<close>, reads \<open>00001\<close>
  in the last five bytes of \<open>get()\<close>.
\<close>

theorem buffer_append_truncates:
  "(0 \<le> pos b \<and> pos b \<le> defaulBufferSize \<longrightarrow>
      (\<exists>b'. buffer_append b data = Inr b' \<and>
            pos b' = pos b + min (int (length data)) (defaulBufferSize - pos b) \<and>
            pos b' \<le> defaulBufferSize \<and>
            (\<forall>k. k < nat (min (int (length data)) (defaulBufferSize - pos b)) \<longrightarrow>
                 buf b' (nat (pos b) + k) = data ! k) \<and>
            (\<forall>k. int k < pos b \<or> pos b' \<le> int k \<longrightarrow> buf b' k = buf b k))) \<and>
   TestBuffer = Inr ''00001''"
proof (intro conjI impI)
  assume b: "0 \<le> pos b \<and> pos b \<le> defaulBufferSize"
  let ?n = "min (int (length data)) (defaulBufferSize - pos b)"
  obtain b' where b': "buffer_append b data = Inr b'" "pos b' = pos b + ?n"
     "buf b' = copy_slice (buf b) (pos b) (pos b + ?n) data"
    using buffer_append_pos [of b data] b by blast
  have "pos b' \<le> defaulBufferSize" using b b'(2) by simp
  moreover have "\<forall>k. k < nat ?n \<longrightarrow> buf b' (nat (pos b) + k) = data ! k"
    unfolding b'(3) using b by (auto intro!: copy_slice_inside)
  moreover have "\<forall>k. int k < pos b \<or> pos b' \<le> int k \<longrightarrow> buf b' k = buf b k"
    unfolding b'(3) b'(2) by (auto intro!: copy_slice_outside)
  ultimately show "\<exists>b'. buffer_append b data = Inr b' \<and>
            pos b' = pos b + ?n \<and> pos b' \<le> defaulBufferSize \<and>
            (\<forall>k. k < nat ?n \<longrightarrow> buf b' (nat (pos b) + k) = data ! k) \<and>
            (\<forall>k. int k < pos b \<or> pos b' \<le> int k \<longrightarrow> buf b' k = buf b k)"
    using b' by blast
next
  show "TestBuffer = Inr ''00001''" by (rule TestBuffer_value)
qed

theorem buffer_append_truncates_witness:
  "\<exists>b'. buffer_append \<lparr>buf = (\<lambda>k. CHR ''x''), pos = 4094\<rparr> ''abc'' = Inr b' \<and>
        pos b' = 4096 \<and> buf b' 4094 = CHR ''a'' \<and> buf b' 4095 = CHR ''b'' \<and>
        buf b' 4093 = CHR ''x''"
proof -
  let ?b = "\<lparr>buf = (\<lambda>k. CHR ''x''), pos = 4094\<rparr>"
  have h: "0 \<le> pos ?b \<and> pos ?b \<le> defaulBufferSize" by (simp add: defaulBufferSize_def)
  from buffer_append_truncates [of ?b "''abc''"] h
  obtain b' where b': "buffer_append ?b ''abc'' = Inr b'"
    "pos b' = pos ?b + min (int (length ''abc'')) (defaulBufferSize - pos ?b)"
    "\<forall>k. k < nat (min (int (length ''abc'')) (defaulBufferSize - pos ?b)) \<longrightarrow>
         buf b' (nat (pos ?b) + k) = ''abc'' ! k"
    "\<forall>k. int k < pos ?b \<or> pos b' \<le> int k \<longrightarrow> buf b' k = buf ?b k"
    by blast
  have p: "pos b' = 4096" using b'(2) by (simp add: defaulBufferSize_def)
  have n: "nat (min (int (length ''abc'')) (defaulBufferSize - pos ?b)) = 2"
    by (simp add: defaulBufferSize_def)
  have "buf b' (nat (pos ?b) + 0) = ''abc'' ! 0"
    using b'(3) [THEN spec, of 0] unfolding n by simp
  moreover have "buf b' (nat (pos ?b) + 1) = ''abc'' ! 1"
    using b'(3) [THEN spec, of 1] unfolding n by simp
  moreover have "buf b' 4093 = buf ?b 4093" using b'(4) [THEN spec, of 4093] by simp
  ultimately show ?thesis using b'(1) p by simp
qed

section \<open>Levels\<close>

lemma levelStrings_Some_iff:
  "(\<exists>s. levelStrings level = Some s) \<longleftrightarrow>
     level \<in> {FatalLevel, ErrorLevel, WarnLevel, InfoLevel, DebugLevel, TraceLevel}"
  by (auto simp: levelStrings_def FatalLevel_def ErrorLevel_def WarnLevel_def InfoLevel_def
        DebugLevel_def TraceLevel_def)

lemma levelStrings_None_iff:
  "levelStrings level = None \<longleftrightarrow>
     level \<notin> {FatalLevel, ErrorLevel, WarnLevel, InfoLevel, DebugLevel, TraceLevel}"
  using levelStrings_Some_iff [of level] by (cases "levelStrings level") auto

lemma levelStrings_at_values:
  "levelStrings_at FatalLevel = ''FATAL: ''"
  "levelStrings_at ErrorLevel = ''ERROR: ''"
  "levelStrings_at WarnLevel = ''WARNING: ''"
  "levelStrings_at InfoLevel = ''INFO: ''"
  "levelStrings_at DebugLevel = ''DEBUG: ''"
  "levelStrings_at TraceLevel = ''TRACE: ''"
  by (simp_all add: levelStrings_at_def levelStrings_def FatalLevel_def ErrorLevel_def
        WarnLevel_def InfoLevel_def DebugLevel_def TraceLevel_def)


text \<open>
  C4. \<open>SetLevel\<close> with a byte that is none of the six levels returns the error and the
  Logger unchanged, so with its threshold; with one of the six it returns no error and
  the Logger with that threshold.
\<close>

theorem SetLevel_checks_level:
  "(level \<notin> {FatalLevel, ErrorLevel, WarnLevel, InfoLevel, DebugLevel, TraceLevel} \<longrightarrow>
      SetLevel l level = (Some (UnknownLogLevel level), l)) \<and>
   (level \<in> {FatalLevel, ErrorLevel, WarnLevel, InfoLevel, DebugLevel, TraceLevel} \<longrightarrow>
      SetLevel l level = (None, l\<lparr>currentLevel := level\<rparr>))"
proof (intro conjI impI)
  assume "level \<notin> {FatalLevel, ErrorLevel, WarnLevel, InfoLevel, DebugLevel, TraceLevel}"
  then have "levelStrings level = None" by (rule levelStrings_None_iff [THEN iffD2])
  then show "SetLevel l level = (Some (UnknownLogLevel level), l)"
    by (simp add: SetLevel_def)
next
  assume "level \<in> {FatalLevel, ErrorLevel, WarnLevel, InfoLevel, DebugLevel, TraceLevel}"
  then obtain s where "levelStrings level = Some s"
    using levelStrings_Some_iff [of level] by blast
  then show "SetLevel l level = (None, l\<lparr>currentLevel := level\<rparr>)"
    by (simp add: SetLevel_def)
qed

theorem SetLevel_checks_level_witness:
  "SetLevel (zero_Logger\<lparr>currentLevel := InfoLevel\<rparr>) 255 =
     (Some (UnknownLogLevel 255), zero_Logger\<lparr>currentLevel := InfoLevel\<rparr>) \<and>
   SetLevel (zero_Logger\<lparr>currentLevel := InfoLevel\<rparr>) DebugLevel =
     (None, zero_Logger\<lparr>currentLevel := DebugLevel\<rparr>)"
  using SetLevel_checks_level [of 255 "zero_Logger\<lparr>currentLevel := InfoLevel\<rparr>"]
    SetLevel_checks_level [of DebugLevel "zero_Logger\<lparr>currentLevel := InfoLevel\<rparr>"]
  by (simp add: FatalLevel_def ErrorLevel_def WarnLevel_def InfoLevel_def DebugLevel_def
        TraceLevel_def)

section \<open>New\<close>

lemma New_seed_upt:
  assumes "length ch \<le> i" "i \<le> defaulBuffers"
  shows "New_seed i ch = Some (ch @ [i ..< defaulBuffers])"
  using assms
proof (induction i ch rule: New_seed.induct)
  case (1 i ch)
  show ?case
  proof (cases "i < defaulBuffers")
    case True
    then have send: "chan_send defaulBuffers ch i = Some (ch @ [i])"
      using "1.prems" by (simp add: chan_send_def)
    have "New_seed (i + 1) (ch @ [i]) = Some ((ch @ [i]) @ [i + 1 ..< defaulBuffers])"
      using "1.IH" [OF True send] "1.prems" True by simp
    then show ?thesis using True send
      by (subst New_seed.simps) (simp add: upt_conv_Cons)
  next
    case False
    then show ?thesis using "1.prems" by (subst New_seed.simps) simp
  qed
qed

lemma New_seed_0: "New_seed 0 [] = Some [0 ..< defaulBuffers]"
  using New_seed_upt [of "[]" 0] by simp

lemma New_fails:
  assumes "open_error w (Filename config) = Some reason"
  shows "New w config = Some (Inl (PathError (Filename config) reason), w)"
  using assms by (simp add: New_def os_OpenFile_def Let_def)

lemma New_succeeds:
  assumes "open_error w (Filename config) = None"
  shows "New w config =
    Some (Inr \<lparr>writer = length (writers w), buffers = (\<lambda>i. zero_buffer),
                bufStack = [0 ..< defaulBuffers],
                skipHandler = cfg_SkipHandler config,
                writeErrorHandler = cfg_WriteErrorHandler config,
                currentLevel = InfoLevel, timeFormat = ''2006.01.02 15:04:05.00 '',
                timeStr = now_format w ''2006.01.02 15:04:05.00 '',
                filename = Filename config, cur_file = next_file w, signalChan = []\<rparr>,
          w\<lparr>next_file := next_file w + 1,
            open_files := insert (next_file w) (open_files w),
            writers := writers w @ [\<lparr>Out = next_file w, SkipHandler = cfg_SkipHandler config,
                                     WriteErrorHandler = cfg_WriteErrorHandler config\<rparr>],
            log_output := Some (length (writers w)),
            trace := trace w @ [EvOpen (Filename config) (next_file w),
                                EvSetOutput (length (writers w)), EvNotify SIGHUP,
                                EvGo ''updateTime'', EvGo ''signalLoop'']\<rparr>)"
  using assms
  by (simp add: New_def os_OpenFile_def Let_def logwriter_New_def New_seed_0 log_SetOutput_def
        zero_Logger_def)

lemma New_cases:
  "New w config = Some (Inr l, w') \<Longrightarrow> open_error w (Filename config) = None"
  by (cases "open_error w (Filename config)") (simp_all add: New_fails)

lemma test_world_opens: "open_error test_world (Filename test_config) = None"
  by (simp add: test_world_def test_config_def)

text \<open>
  C8. As bytes the six levels are strictly increasing from \<open>FatalLevel\<close> to
  \<open>TraceLevel\<close>, and the threshold of a Logger that \<open>New\<close> returns is \<open>InfoLevel\<close>.
\<close>

theorem levels_ordered_default_Info:
  "FatalLevel < ErrorLevel \<and> ErrorLevel < WarnLevel \<and> WarnLevel < InfoLevel \<and>
   InfoLevel < DebugLevel \<and> DebugLevel < TraceLevel \<and>
   (New w config = Some (Inr l, w') \<longrightarrow> currentLevel l = InfoLevel)"
proof -
  have "currentLevel l = InfoLevel" if "New w config = Some (Inr l, w')"
    using that New_succeeds [OF New_cases [OF that]] by auto
  then show ?thesis
    by (simp add: FatalLevel_def ErrorLevel_def WarnLevel_def InfoLevel_def DebugLevel_def
          TraceLevel_def)
qed

theorem levels_ordered_default_Info_witness:
  "\<exists>l w'. New test_world test_config = Some (Inr l, w') \<and> currentLevel l = InfoLevel"
proof -
  obtain l w' where new: "New test_world test_config = Some (Inr l, w')"
    using New_succeeds [OF test_world_opens] by blast
  with levels_ordered_default_Info [of test_world test_config l w']
  show ?thesis by blast
qed

text \<open>
  C10. After a call of \<open>New\<close> that returns a Logger, whatever the configuration, the
  output of the standard library's global logger is the sink of that Logger, and the
  sink is a live one whose target is the Logger's file.
\<close>

theorem New_redirects_standard_log:
  "New w config = Some (Inr l, w') \<Longrightarrow>
     log_output w' = Some (writer l) \<and> EvSetOutput (writer l) \<in> set (trace w') \<and>
     writer l < length (writers w') \<and> Out (writers w' ! writer l) = cur_file l"
proof -
  assume new: "New w config = Some (Inr l, w')"
  note eq = New_succeeds [OF New_cases [OF new]]
  from new eq have l: "writer l = length (writers w)" "cur_file l = next_file w" by auto
  from new eq have w': "log_output w' = Some (length (writers w))"
    "trace w' = trace w @ [EvOpen (Filename config) (next_file w),
                                EvSetOutput (length (writers w)), EvNotify SIGHUP,
                                EvGo ''updateTime'', EvGo ''signalLoop'']"
    "writers w' = writers w @ [\<lparr>Out = next_file w, SkipHandler = cfg_SkipHandler config,
                                     WriteErrorHandler = cfg_WriteErrorHandler config\<rparr>]"
    by auto
  show ?thesis using l w' by simp
qed

theorem New_redirects_standard_log_witness:
  "\<exists>l w'. New test_world test_config = Some (Inr l, w') \<and> log_output test_world = None \<and>
     log_output w' = Some (writer l) \<and> writer l = 0"
proof -
  obtain l w' where new: "New test_world test_config = Some (Inr l, w')"
    and l: "writer l = length (writers test_world)"
    using New_succeeds [OF test_world_opens] by auto
  from New_redirects_standard_log [OF new] l
  show ?thesis using new by (auto simp: test_world_def)
qed

section \<open>Reopen\<close>

lemma os_OpenFile_fails:
  "fst (os_OpenFile w name) = Inl err \<Longrightarrow> os_OpenFile w name = (Inl err, w)"
  by (cases "open_error w name") (auto simp: os_OpenFile_def)

lemma os_OpenFile_opens:
  "fst (os_OpenFile w name) = Inr f \<Longrightarrow>
     f = next_file w \<and>
     os_OpenFile w name =
       (Inr f, w\<lparr>next_file := next_file w + 1,
                  open_files := insert (next_file w) (open_files w),
                  trace := trace w @ [EvOpen name (next_file w)]\<rparr>)"
  by (cases "open_error w name") (auto simp: os_OpenFile_def)

lemma Reopen_None:
  assumes "Reopen w l = (None, w', l')"
  shows "\<exists>f. fst (os_OpenFile w (filename l)) = Inr f"
  using assms
  by (cases "os_OpenFile w (filename l)" rule: prod.exhaust)
     (auto simp: Reopen_def Reopen_open_def split: sum.splits)

text \<open>
  C5. When the file at the configured path cannot be opened, \<open>Reopen\<close> returns the error
  of the open and changes nothing: the Logger's file handle, the target of its sink, the
  set of open files and the trace are as before, so the handle that was open still is
  and the sink still writes to it.
\<close>

theorem Reopen_failure_changes_nothing:
  assumes "fst (os_OpenFile w (filename l)) = Inl err"
  shows "\<exists>w' l'. Reopen w l = (Some err, w', l') \<and> w' = w \<and> l' = l \<and>
           cur_file l' = cur_file l \<and> writers w' = writers w \<and>
           open_files w' = open_files w \<and> trace w' = trace w"
  using os_OpenFile_fails [OF assms] by (simp add: Reopen_def Reopen_open_def)

theorem Reopen_failure_changes_nothing_witness:
  "\<exists>l w. New test_world test_config = Some (Inr l, w) \<and>
     Reopen w (l\<lparr>filename := ''/''\<rparr>) =
       (Some (PathError ''/'' ''is a directory''), w, l\<lparr>filename := ''/''\<rparr>) \<and>
     cur_file l \<in> open_files w \<and> Out (writers w ! writer l) = cur_file l"
proof -
  note new = New_succeeds [OF test_world_opens]
  then obtain l w where lw: "New test_world test_config = Some (Inr l, w)"
    and w: "open_error w = open_error test_world" "cur_file l \<in> open_files w"
      "Out (writers w ! writer l) = cur_file l"
    by (auto simp: test_world_def)
  have "fst (os_OpenFile w (filename (l\<lparr>filename := ''/''\<rparr>))) =
          Inl (PathError ''/'' ''is a directory'')"
    using w(1) by (simp add: os_OpenFile_def test_world_def)
  from Reopen_failure_changes_nothing [OF this] lw w show ?thesis by auto
qed

section \<open>Composing a record\<close>

lemma take_take_append:
  "take n xs @ take (n - length (take n xs)) ys = take n (xs @ ys)"
  by (cases "length xs \<le> n") simp_all

lemma buffer_append_take:
  assumes "buffer_get b = Inr (take (nat defaulBufferSize) xs)"
  shows "\<exists>b'. buffer_append b ys = Inr b' \<and>
           buffer_get b' = Inr (take (nat defaulBufferSize) (xs @ ys))"
  using buffer_append_get [OF assms, of ys] by (simp only: take_take_append)

lemma buffer_clear_get: "buffer_get (buffer_clear b) = Inr []"
  by (simp add: buffer_get_def buffer_clear_def defaulBufferSize_def)

lemma slot_append_take:
  assumes "i < defaulBuffers"
    and "buffer_get (buffers l i) = Inr (take (nat defaulBufferSize) xs)"
  shows "\<exists>b'. slot_append l i ys = Inr (l\<lparr>buffers := (buffers l)(i := b')\<rparr>) \<and>
           buffer_get b' = Inr (take (nat defaulBufferSize) (xs @ ys))"
  using buffer_append_take [OF assms(2), of ys] assms(1)
  by (auto simp: slot_append_def)

lemma output_compose_take:
  assumes "i < defaulBuffers"
  shows "\<exists>b'. output_compose l i level data = Inr (l\<lparr>buffers := (buffers l)(i := b')\<rparr>) \<and>
           buffer_get b' =
             Inr (take (nat defaulBufferSize) (timeStr l @ levelStrings_at level @ data))"
proof -
  let ?l1 = "l\<lparr>buffers := (buffers l)(i := buffer_clear (buffers l i))\<rparr>"
  have c: "slot_clear l i = Inr ?l1" using assms by (simp add: slot_clear_def)
  have g1: "buffer_get (buffers ?l1 i) = Inr (take (nat defaulBufferSize) [])"
    by (simp add: buffer_clear_get)
  obtain b2 where b2: "slot_append ?l1 i (getTime ?l1) = Inr (?l1\<lparr>buffers := (buffers ?l1)(i := b2)\<rparr>)"
    "buffer_get b2 = Inr (take (nat defaulBufferSize) ([] @ getTime ?l1))"
    using slot_append_take [OF assms g1] by blast
  let ?l2 = "?l1\<lparr>buffers := (buffers ?l1)(i := b2)\<rparr>"
  have g2: "buffer_get (buffers ?l2 i) = Inr (take (nat defaulBufferSize) (timeStr l))"
    using b2(2) by (simp add: getTime_def)
  obtain b3 where b3: "slot_append ?l2 i (levelStrings_at level) = Inr (?l2\<lparr>buffers := (buffers ?l2)(i := b3)\<rparr>)"
    "buffer_get b3 = Inr (take (nat defaulBufferSize) (timeStr l @ levelStrings_at level))"
    using slot_append_take [OF assms g2] by blast
  let ?l3 = "?l2\<lparr>buffers := (buffers ?l2)(i := b3)\<rparr>"
  have g3: "buffer_get (buffers ?l3 i) = Inr (take (nat defaulBufferSize) (timeStr l @ levelStrings_at level))"
    using b3(2) by simp
  obtain b4 where b4: "slot_append ?l3 i data = Inr (?l3\<lparr>buffers := (buffers ?l3)(i := b4)\<rparr>)"
    "buffer_get b4 = Inr (take (nat defaulBufferSize) ((timeStr l @ levelStrings_at level) @ data))"
    using slot_append_take [OF assms g3] by blast
  have "output_compose l i level data = Inr (?l3\<lparr>buffers := (buffers ?l3)(i := b4)\<rparr>)"
    using c b2(1) b3(1) b4(1) by (simp add: output_compose_def)
  then show ?thesis using b4(2) by (intro exI [of _ b4]) simp
qed

lemma take_spec_record:
  assumes "c = ts @ prefix @ payload" "c \<noteq> []" "0 < n"
  shows "(if last (take n c) \<noteq> CHR 0x0A then take n (c @ [CHR 0x0A]) else take n c) =
          take n (spec_record ts prefix payload)"
proof (cases "length c \<le> n")
  case True
  then show ?thesis using assms by (simp add: spec_record_def Let_def)
next
  case False
  then have "take n (c @ [CHR 0x0A]) = take n c" by simp
  then show ?thesis using assms(1) by (simp add: spec_record_def Let_def)
qed

lemma output_newline_nonempty:
  assumes "slot_get l i = Inr g" "g \<noteq> []"
  shows "output_newline l i =
           (if last g \<noteq> CHR 0x0A then slot_append l i [CHR 0x0A] else Inr l)"
proof -
  have len: "0 < length g" using assms(2) by blast
  then have "nat (int (length g) - 1) = length g - 1" by linarith
  moreover have "last g = g ! (length g - 1)" using assms(2) by (rule last_conv_nth)
  ultimately have "g ! nat (int (length g) - 1) = last g" by simp
  then show ?thesis using assms(1) len by (simp add: output_newline_def Let_def)
qed

lemma output_newline_take:
  assumes "i < defaulBuffers"
    and "buffer_get (buffers l i) = Inr (take (nat defaulBufferSize) (ts @ prefix @ payload))"
    and "ts @ prefix @ payload \<noteq> []"
  shows "\<exists>b'. output_newline l i = Inr (l\<lparr>buffers := (buffers l)(i := b')\<rparr>) \<and>
           buffer_get b' = Inr (take (nat defaulBufferSize) (spec_record ts prefix payload))"
proof -
  define n where "n = nat defaulBufferSize"
  define c where "c = ts @ prefix @ payload"
  define g where "g = take n c"
  have n: "0 < n" by (simp add: n_def defaulBufferSize_def)
  have get: "buffer_get (buffers l i) = Inr g" using assms(2) by (simp add: g_def c_def n_def)
  then have sg: "slot_get l i = Inr g" using assms(1) by (simp add: slot_get_def)
  have ne: "g \<noteq> []" using assms(3) n by (simp add: g_def c_def)
  note nl = output_newline_nonempty [OF sg ne]
  have spec: "(if last g \<noteq> CHR 0x0A then take n (c @ [CHR 0x0A]) else g) =
          take n (spec_record ts prefix payload)"
    unfolding g_def using take_spec_record [OF c_def _ n] assms(3) c_def by blast
  show ?thesis
  proof (cases "last g \<noteq> CHR 0x0A")
    case True
    obtain b' where b': "slot_append l i [CHR 0x0A] = Inr (l\<lparr>buffers := (buffers l)(i := b')\<rparr>)"
      "buffer_get b' = Inr (take n (c @ [CHR 0x0A]))"
      using slot_append_take [OF assms(1,2), of "[CHR 0x0A]"] unfolding n_def c_def by auto
    then show ?thesis using nl spec True unfolding n_def by (intro exI [of _ b']) simp
  next
    case False
    have "l\<lparr>buffers := (buffers l)(i := buffers l i)\<rparr> = l" by simp
    then show ?thesis using nl spec False get unfolding n_def
      by (intro exI [of _ "buffers l i"]) simp
  qed
qed

lemma output_body_writes:
  assumes "i < defaulBuffers" and "timeStr l @ levelStrings_at level @ data \<noteq> []"
  shows "\<exists>b'. output_body w l i level data =
           (None,
            logwriter_Write w (writer l)
              (take (nat defaulBufferSize) (spec_record (timeStr l) (levelStrings_at level) data)),
            l\<lparr>buffers := (buffers l)(i := b')\<rparr>) \<and>
           buffer_get b' =
             Inr (take (nat defaulBufferSize) (spec_record (timeStr l) (levelStrings_at level) data))"
proof -
  obtain b1 where b1: "output_compose l i level data = Inr (l\<lparr>buffers := (buffers l)(i := b1)\<rparr>)"
    "buffer_get b1 = Inr (take (nat defaulBufferSize) (timeStr l @ levelStrings_at level @ data))"
    using output_compose_take [OF assms(1)] by blast
  let ?l1 = "l\<lparr>buffers := (buffers l)(i := b1)\<rparr>"
  have g1: "buffer_get (buffers ?l1 i) =
      Inr (take (nat defaulBufferSize) (timeStr l @ levelStrings_at level @ data))"
    using b1(2) by simp
  obtain b2 where b2: "output_newline ?l1 i = Inr (?l1\<lparr>buffers := (buffers ?l1)(i := b2)\<rparr>)"
    "buffer_get b2 =
       Inr (take (nat defaulBufferSize) (spec_record (timeStr l) (levelStrings_at level) data))"
    using output_newline_take [OF assms(1) g1 assms(2)] by blast
  let ?l2 = "?l1\<lparr>buffers := (buffers ?l1)(i := b2)\<rparr>"
  have "slot_get ?l2 i =
      Inr (take (nat defaulBufferSize) (spec_record (timeStr l) (levelStrings_at level) data))"
    using assms(1) b2(2) by (simp add: slot_get_def)
  then have "output_body w l i level data =
      (None, logwriter_Write w (writer ?l2)
         (take (nat defaulBufferSize) (spec_record (timeStr l) (levelStrings_at level) data)), ?l2)"
    using b1(1) b2(1) by (simp add: output_body_def)
  then show ?thesis using b2(2) by (intro exI [of _ b2]) simp
qed

section \<open>Reopen, alone and overlapping\<close>

lemma Reopen_locked_eq:
  "Reopen_locked w l f =
     (w\<lparr>writers := (writers w)[writer l := (writers w ! writer l)\<lparr>Out := f\<rparr>],
        open_files := open_files w - {cur_file l},
        trace := trace w @ [EvReset (writer l) f, EvClose (cur_file l)]\<rparr>,
      l\<lparr>cur_file := f\<rparr>)"
  by (simp add: Reopen_locked_def Let_def logwriter_Reset_def file_Close_def)

text \<open>
  A call of \<open>Reopen\<close> that runs alone and returns no error makes three calls to the
  environment, in this order: the open, the reset of the sink, the close of the handle the
  Logger had; it leaves the new handle in the Logger and as the target of the sink.
\<close>

lemma Reopen_alone_order:
  assumes "Reopen w l = (None, w', l')" and "writer l < length (writers w)"
  shows "\<exists>f. trace w' = trace w @
                 [EvOpen (filename l) f, EvReset (writer l) f, EvClose (cur_file l)] \<and>
              cur_file l' = f \<and> Out (writers w' ! writer l') = f \<and> writer l' = writer l"
proof -
  obtain f where "fst (os_OpenFile w (filename l)) = Inr f"
    using Reopen_None [OF assms(1)] by blast
  note opn = os_OpenFile_opens [OF this]
  from assms(1) opn have "(w', l') = Reopen_locked
        (w\<lparr>next_file := next_file w + 1,
                  open_files := insert (next_file w) (open_files w),
                  trace := trace w @ [EvOpen (filename l) (next_file w)]\<rparr>) l f"
    by (simp add: Reopen_def Reopen_open_def split: prod.splits)
  then show ?thesis
    using assms(2) opn by (intro exI [of _ f]) (simp add: Reopen_locked_eq)
qed

lemma test_logger_New:
  "New test_world test_config = Some (Inr test_logger, test_world_New)"
  using New_succeeds [OF test_world_opens] by (simp add: test_logger_def test_world_New_def)

lemma test_logger_fields:
  "currentLevel test_logger = InfoLevel"
  "bufStack test_logger = [0 ..< defaulBuffers]"
  "timeStr test_logger = ''2026.11.01 12:00:00.00 ''"
  "writer test_logger = 0"
  "cur_file test_logger = 3"
  "filename test_logger = ''./TestCreateLogger.log''"
  using New_succeeds [OF test_world_opens]
  by (simp_all add: test_logger_def test_world_def test_config_def)

lemma test_world_New_fields:
  "open_error test_world_New = open_error test_world"
  "next_file test_world_New = 4"
  "open_files test_world_New = {0, 1, 2, 3}"
  "writers test_world_New = [\<lparr>Out = 3, SkipHandler = None, WriteErrorHandler = None\<rparr>]"
  using New_succeeds [OF test_world_opens]
  by (auto simp: test_world_New_def test_world_def test_config_def)

lemma test_world_path_opens:
  "open_error test_world ''./TestCreateLogger.log'' = None"
  by (simp add: test_world_def)


lemma Reopen_open_eq:
  "open_error w (filename l) = None \<Longrightarrow>
     Reopen_open w l =
       (Inr (next_file w),
        w\<lparr>next_file := next_file w + 1,
          open_files := insert (next_file w) (open_files w),
          trace := trace w @ [EvOpen (filename l) (next_file w)]\<rparr>)"
  by (simp add: Reopen_open_def os_OpenFile_def)

text \<open>
  C6. In each call of \<open>Reopen\<close> the open comes before the reset of the sink and the reset
  before the close, but the open is made before the lock is taken. Take the Logger that
  \<open>New\<close> returns, on handle 3, and two overlapping calls: the first opens handle 4, the
  second opens handle 5 and runs its locked part, then the first runs its locked part.
  This run is one of the runs of the Logger; both calls return no error; and at the end
  the Logger's handle and the target of its sink are handle 4, while handle 5, the last
  one opened, is closed.
\<close>

theorem Reopen_overlap_keeps_older_handle:
  "\<exists>w l. Reopen_overlap test_world_New test_logger = Some (w, l) \<and>
     reachable (w, l, \<lambda>t. Idle) \<and>
     trace w = trace test_world_New @
       [EvOpen ''./TestCreateLogger.log'' 4, EvOpen ''./TestCreateLogger.log'' 5,
        EvReset 0 5, EvClose 3, EvReset 0 4, EvClose 5] \<and>
     cur_file l = 4 \<and> Out (writers w ! writer l) = 4 \<and>
     4 \<in> open_files w \<and> 5 \<notin> open_files w"
proof -
  define p where "p = ''./TestCreateLogger.log''"
  define w0 where "w0 = test_world_New"
  define l0 where "l0 = test_logger"
  define w1 where "w1 = w0\<lparr>next_file := next_file w0 + 1,
      open_files := insert (next_file w0) (open_files w0),
      trace := trace w0 @ [EvOpen (filename l0) (next_file w0)]\<rparr>"
  define w2 where "w2 = w1\<lparr>next_file := next_file w1 + 1,
      open_files := insert (next_file w1) (open_files w1),
      trace := trace w1 @ [EvOpen (filename l0) (next_file w1)]\<rparr>"
  define w3 where "w3 = fst (Reopen_locked w2 l0 5)"
  define l3 where "l3 = snd (Reopen_locked w2 l0 5)"
  define w4 where "w4 = fst (Reopen_locked w3 l3 4)"
  define l4 where "l4 = snd (Reopen_locked w3 l3 4)"
  have l0: "filename l0 = p" "writer l0 = 0" "cur_file l0 = 3"
    by (simp_all add: l0_def p_def test_logger_fields)
  have w0: "open_error w0 p = None" "next_file w0 = 4" "open_files w0 = {0, 1, 2, 3}"
    "writers w0 = [\<lparr>Out = 3, SkipHandler = None, WriteErrorHandler = None\<rparr>]"
    by (simp_all add: w0_def p_def test_world_New_fields test_world_path_opens)
  have w1: "open_error w1 p = None" "next_file w1 = 5"
    "open_files w1 = insert 4 {0, 1, 2, 3}" "writers w1 = writers w0"
    "trace w1 = trace w0 @ [EvOpen p 4]"
    by (simp_all add: w1_def w0 l0)
  have w2: "open_files w2 = insert 5 (insert 4 {0, 1, 2, 3})" "writers w2 = writers w0"
    "trace w2 = trace w0 @ [EvOpen p 4, EvOpen p 5]"
    by (simp_all add: w2_def w1 l0)
  have o1: "Reopen_open w0 l0 = (Inr 4, w1)"
    using Reopen_open_eq [of w0 l0] l0(1) w0(1,2) by (simp add: w1_def)
  have o2: "Reopen_open w1 l0 = (Inr 5, w2)"
    using Reopen_open_eq [of w1 l0] l0(1) w1(1,2) by (simp add: w2_def)
  have s3: "Reopen_locked w2 l0 5 = (w3, l3)" by (simp add: w3_def l3_def)
  have s4: "Reopen_locked w3 l3 4 = (w4, l4)" by (simp add: w4_def l4_def)
  have run: "Reopen_overlap test_world_New test_logger = Some (w4, l4)"
    using o1 o2 s3 s4 by (simp add: Reopen_overlap_def w0_def l0_def)
  have l3: "writer l3 = 0" "cur_file l3 = 5"
    using l0 by (simp_all add: l3_def Reopen_locked_eq)
  have w3: "trace w3 = trace w0 @ [EvOpen p 4, EvOpen p 5, EvReset 0 5, EvClose 3]"
    "open_files w3 = insert 5 (insert 4 {0, 1, 2, 3}) - {3}"
    "writers w3 = [\<lparr>Out = 5, SkipHandler = None, WriteErrorHandler = None\<rparr>]"
    by (simp_all add: w3_def Reopen_locked_eq w2 w0 l0)
  have l4: "writer l4 = 0" "cur_file l4 = 4"
    using l3 by (simp_all add: l4_def Reopen_locked_eq)
  have w4: "trace w4 = trace w0 @
      [EvOpen p 4, EvOpen p 5, EvReset 0 5, EvClose 3, EvReset 0 4, EvClose 5]"
    "open_files w4 = insert 5 (insert 4 {0, 1, 2, 3}) - {3} - {5}"
    "writers w4 = [\<lparr>Out = 4, SkipHandler = None, WriteErrorHandler = None\<rparr>]"
    by (simp_all add: w4_def Reopen_locked_eq w3 l3)
  define thr0 :: "nat \<Rightarrow> tstate" where "thr0 = (\<lambda>t. Idle)"
  define thr1 where "thr1 = thr0(0 := Reopening 4)"
  define thr2 where "thr2 = thr1(1 := Reopening 5)"
  define thr3 where "thr3 = thr2(1 := Idle)"
  have r0: "reachable (w0, l0, thr0)"
    unfolding w0_def l0_def thr0_def by (rule reachable.init [OF test_logger_New])
  have "thr0 0 = Idle" by (simp add: thr0_def)
  then have "step (w0, l0, thr0) (w1, l0, thr1)"
    unfolding thr1_def using o1 by (rule step.reopen_open)
  with r0 have r1: "reachable (w1, l0, thr1)" by (rule reachable.after)
  have "thr1 1 = Idle" by (simp add: thr1_def thr0_def)
  then have "step (w1, l0, thr1) (w2, l0, thr2)"
    unfolding thr2_def using o2 by (rule step.reopen_open)
  with r1 have r2: "reachable (w2, l0, thr2)" by (rule reachable.after)
  have "thr2 1 = Reopening 5" by (simp add: thr2_def)
  then have "step (w2, l0, thr2) (w3, l3, thr3)"
    unfolding thr3_def using s3 by (rule step.reopen_locked)
  with r2 have r3: "reachable (w3, l3, thr3)" by (rule reachable.after)
  have "thr3 0 = Reopening 4" by (simp add: thr3_def thr2_def thr1_def)
  then have "step (w3, l3, thr3) (w4, l4, thr3(0 := Idle))"
    using s4 by (rule step.reopen_locked)
  with r3 have "reachable (w4, l4, thr3(0 := Idle))" by (rule reachable.after)
  moreover have "thr3(0 := Idle) = (\<lambda>t. Idle)"
    by (rule ext) (simp add: thr3_def thr2_def thr1_def thr0_def)
  ultimately have r4: "reachable (w4, l4, \<lambda>t. Idle)" by simp
  have "trace w4 = trace test_world_New @
       [EvOpen ''./TestCreateLogger.log'' 4, EvOpen ''./TestCreateLogger.log'' 5,
        EvReset 0 5, EvClose 3, EvReset 0 4, EvClose 5]"
    using w4(1) by (simp add: w0_def p_def)
  moreover have "Out (writers w4 ! writer l4) = 4" by (simp add: w4(3) l4(1))
  moreover have "4 \<in> open_files w4" "5 \<notin> open_files w4" by (simp_all add: w4(2))
  ultimately show ?thesis
    using run r4 l4(2) by blast
qed

section \<open>A call of output\<close>

lemma levelStrings_at_nonempty:
  "level \<in> {FatalLevel, ErrorLevel, WarnLevel, InfoLevel, DebugLevel, TraceLevel} \<Longrightarrow>
     levelStrings_at level \<noteq> []"
  by (auto simp: levelStrings_at_values)

lemma Logger_output_filtered:
  "level > currentLevel l \<Longrightarrow> Logger_output w l level data = Returned w l"
  by (simp add: Logger_output_def)

lemma Logger_output_blocked:
  "\<not> level > currentLevel l \<Longrightarrow> bufStack l = [] \<Longrightarrow>
     Logger_output w l level data = Blocked w l"
  by (simp add: Logger_output_def chan_recv_def)

lemma Logger_output_emits:
  assumes "\<not> level > currentLevel l" and "bufStack l = i # q" and "i < defaulBuffers"
    and "length q < defaulBuffers" and "timeStr l @ levelStrings_at level @ data \<noteq> []"
  shows "\<exists>b'. Logger_output w l level data =
           Returned
             (logwriter_Write w (writer l)
               (take (nat defaulBufferSize) (spec_record (timeStr l) (levelStrings_at level) data)))
             (l\<lparr>buffers := (buffers l)(i := b'), bufStack := q @ [i]\<rparr>) \<and>
           buffer_get b' =
             Inr (take (nat defaulBufferSize) (spec_record (timeStr l) (levelStrings_at level) data))"
proof -
  define bs where
    "bs = take (nat defaulBufferSize) (spec_record (timeStr l) (levelStrings_at level) data)"
  define l0 where "l0 = l\<lparr>bufStack := q\<rparr>"
  have l0: "timeStr l0 = timeStr l" "writer l0 = writer l" "buffers l0 = buffers l"
    "bufStack l0 = q"
    by (simp_all add: l0_def)
  have ne: "timeStr l0 @ levelStrings_at level @ data \<noteq> []" using assms(5) l0(1) by simp
  obtain b' where body: "output_body w l0 i level data =
      (None, logwriter_Write w (writer l0) bs, l0\<lparr>buffers := (buffers l0)(i := b')\<rparr>)"
    and get: "buffer_get b' = Inr bs"
    using output_body_writes [OF assms(3) ne, of w] unfolding bs_def l0(1) by blast
  have recv: "chan_recv (bufStack l) = Some (i, q)" using assms(2) by (simp add: chan_recv_def)
  have rel: "output_release None (logwriter_Write w (writer l0) bs)
        (l0\<lparr>buffers := (buffers l0)(i := b')\<rparr>) i =
      Returned (logwriter_Write w (writer l0) bs)
        (l0\<lparr>buffers := (buffers l0)(i := b'), bufStack := q @ [i]\<rparr>)"
    using assms(4) l0(4) by (simp add: output_release_def chan_send_def)
  have "Logger_output w l level data =
      (case output_body w l0 i level data of (r, w', l') \<Rightarrow> output_release r w' l' i)"
    using assms(1) recv by (simp add: Logger_output_def l0_def)
  also have "\<dots> = Returned (logwriter_Write w (writer l0) bs)
        (l0\<lparr>buffers := (buffers l0)(i := b'), bufStack := q @ [i]\<rparr>)"
    by (simp only: body prod.case rel)
  finally have "Logger_output w l level data =
      Returned (logwriter_Write w (writer l0) bs)
        (l0\<lparr>buffers := (buffers l0)(i := b'), bufStack := q @ [i]\<rparr>)" .
  moreover have "l0\<lparr>buffers := (buffers l0)(i := b'), bufStack := q @ [i]\<rparr> =
      l\<lparr>buffers := (buffers l)(i := b'), bufStack := q @ [i]\<rparr>"
    by (simp add: l0_def)
  ultimately show ?thesis using get l0(2) unfolding bs_def by (intro exI [of _ b']) simp
qed

lemma test_logger_bufStack:
  "bufStack test_logger = 0 # [1 ..< defaulBuffers]" "length [1 ..< defaulBuffers] < defaulBuffers"
proof -
  have "[0 ..< defaulBuffers] = 0 # [Suc 0 ..< defaulBuffers]"
    by (rule upt_conv_Cons) (simp add: defaulBuffers_def)
  then show "bufStack test_logger = 0 # [1 ..< defaulBuffers]"
    by (simp add: test_logger_fields)
  show "length [1 ..< defaulBuffers] < defaulBuffers" by (simp add: defaulBuffers_def)
qed

lemma logwriter_Write_trace:
  "logwriter_Write w a bs = w\<lparr>trace := trace w @ [EvWrite a bs]\<rparr>"
  by (simp add: logwriter_Write_def)




section \<open>The bytes of a record\<close>

text \<open>
  C2, as stated, fails on a payload that does not fit the buffer. The Logger that \<open>New\<close>
  returns, at level Info with a payload of 4096 bytes \<open>a\<close>, does not hand the timestamp,
  \<open>INFO: \<close>, the payload and a newline to its sink.
\<close>

theorem output_format_counterexample:
  "trace (exit_world (Logger_output test_world_New test_logger InfoLevel
                        (replicate 4096 CHR ''a''))) \<noteq>
   trace test_world_New @
     [EvWrite (writer test_logger)
        (timeStr test_logger @ ''INFO: '' @ replicate 4096 CHR ''a'' @ [CHR 0x0A])]"
proof -
  have nf: "\<not> InfoLevel > currentLevel test_logger" by (simp add: test_logger_fields)
  have ne: "timeStr test_logger @ levelStrings_at InfoLevel @ replicate 4096 CHR ''a'' \<noteq> []"
    by (simp add: levelStrings_at_values)
  have i: "(0::nat) < defaulBuffers" by (simp add: defaulBuffers_def)
  obtain b' where out: "Logger_output test_world_New test_logger InfoLevel (replicate 4096 CHR ''a'') =
      Returned
        (logwriter_Write test_world_New (writer test_logger)
          (take (nat defaulBufferSize)
             (spec_record (timeStr test_logger) (levelStrings_at InfoLevel)
                (replicate 4096 CHR ''a''))))
        (test_logger\<lparr>buffers := (buffers test_logger)(0 := b'),
                       bufStack := [1 ..< defaulBuffers] @ [0]\<rparr>)"
    using Logger_output_emits [OF nf test_logger_bufStack(1) i test_logger_bufStack(2) ne]
    by blast
  have "length (take (nat defaulBufferSize)
             (spec_record (timeStr test_logger) (levelStrings_at InfoLevel)
                (replicate 4096 CHR ''a''))) \<le> 4096"
    by (simp add: defaulBufferSize_def)
  moreover have "length (timeStr test_logger @ ''INFO: '' @ replicate 4096 CHR ''a'' @ [CHR 0x0A])
      > 4096"
    by simp
  ultimately have "take (nat defaulBufferSize)
             (spec_record (timeStr test_logger) (levelStrings_at InfoLevel)
                (replicate 4096 CHR ''a'')) \<noteq>
      timeStr test_logger @ ''INFO: '' @ replicate 4096 CHR ''a'' @ [CHR 0x0A]"
    by (metis not_less)
  then show ?thesis unfolding out by (simp add: logwriter_Write_trace)
qed

text \<open>
  C2, amended. For each of the six levels and every payload, a call of \<open>output\<close> that is
  not filtered and has a free slot hands to the sink the first \<open>defaulBufferSize\<close> bytes
  of the record: the cached timestamp, the level's prefix, the payload, and a newline
  appended only if these do not already end with one. A record of at most
  \<open>defaulBufferSize\<close> bytes is handed over whole. The prefixes are \<open>FATAL: \<close>,
  \<open>ERROR: \<close>, \<open>WARNING: \<close>, \<open>INFO: \<close>, \<open>DEBUG: \<close> and \<open>TRACE: \<close>.
\<close>

theorem output_format_truncated:
  assumes "level \<in> {FatalLevel, ErrorLevel, WarnLevel, InfoLevel, DebugLevel, TraceLevel}"
    and "level \<le> currentLevel l" and "bufStack l = i # q" and "i < defaulBuffers"
    and "length q < defaulBuffers"
  shows "(\<exists>l'. Logger_output w l level data =
            Returned
              (w\<lparr>trace := trace w @
                 [EvWrite (writer l)
                    (take (nat defaulBufferSize)
                       (spec_record (timeStr l) (levelStrings_at level) data))]\<rparr>) l') \<and>
         (int (length (spec_record (timeStr l) (levelStrings_at level) data)) \<le> defaulBufferSize
            \<longrightarrow> take (nat defaulBufferSize)
                  (spec_record (timeStr l) (levelStrings_at level) data) =
                spec_record (timeStr l) (levelStrings_at level) data) \<and>
         levelStrings_at FatalLevel = ''FATAL: '' \<and> levelStrings_at ErrorLevel = ''ERROR: '' \<and>
         levelStrings_at WarnLevel = ''WARNING: '' \<and> levelStrings_at InfoLevel = ''INFO: '' \<and>
         levelStrings_at DebugLevel = ''DEBUG: '' \<and> levelStrings_at TraceLevel = ''TRACE: ''"
proof -
  have nf: "\<not> level > currentLevel l" using assms(2) by (simp add: not_less)
  have "levelStrings_at level \<noteq> []" using assms(1) by (rule levelStrings_at_nonempty)
  then have ne: "timeStr l @ levelStrings_at level @ data \<noteq> []" by simp
  have "\<exists>l'. Logger_output w l level data =
            Returned
              (w\<lparr>trace := trace w @
                 [EvWrite (writer l)
                    (take (nat defaulBufferSize)
                       (spec_record (timeStr l) (levelStrings_at level) data))]\<rparr>) l'"
    using Logger_output_emits [OF nf assms(3,4,5) ne, of w]
    unfolding logwriter_Write_trace by blast
  moreover have "int (length (spec_record (timeStr l) (levelStrings_at level) data))
      \<le> defaulBufferSize \<longrightarrow>
    take (nat defaulBufferSize) (spec_record (timeStr l) (levelStrings_at level) data) =
      spec_record (timeStr l) (levelStrings_at level) data"
    by simp
  ultimately show ?thesis by (simp add: levelStrings_at_values)
qed

theorem output_format_truncated_witness:
  "\<exists>l'. Logger_output test_world_New test_logger InfoLevel ''LogInfo'' =
      Returned
        (test_world_New\<lparr>trace := trace test_world_New @
           [EvWrite 0 ''2026.11.01 12:00:00.00 INFO: LogInfo\<newline>'']\<rparr>) l'"
proof -
  have lv: "InfoLevel \<in> {FatalLevel, ErrorLevel, WarnLevel, InfoLevel, DebugLevel, TraceLevel}"
    "InfoLevel \<le> currentLevel test_logger"
    by (simp_all add: test_logger_fields)
  have i: "(0::nat) < defaulBuffers" by (simp add: defaulBuffers_def)
  have rec: "take (nat defaulBufferSize)
        (spec_record (timeStr test_logger) (levelStrings_at InfoLevel) ''LogInfo'') =
      ''2026.11.01 12:00:00.00 INFO: LogInfo\<newline>''"
    by (simp add: spec_record_def test_logger_fields levelStrings_at_values defaulBufferSize_def)
  from output_format_truncated
      [OF lv test_logger_bufStack(1) i test_logger_bufStack(2), of test_world_New "''LogInfo''"]
  obtain l' where "Logger_output test_world_New test_logger InfoLevel ''LogInfo'' =
      Returned
        (test_world_New\<lparr>trace := trace test_world_New @
           [EvWrite (writer test_logger)
              (take (nat defaulBufferSize)
                 (spec_record (timeStr test_logger) (levelStrings_at InfoLevel) ''LogInfo''))]\<rparr>)
        l'"
    by blast
  then have "Logger_output test_world_New test_logger InfoLevel ''LogInfo'' =
      Returned
        (test_world_New\<lparr>trace := trace test_world_New @
           [EvWrite 0 ''2026.11.01 12:00:00.00 INFO: LogInfo\<newline>'']\<rparr>) l'"
    unfolding rec by (simp add: test_logger_fields(4))
  then show ?thesis by blast
qed

section \<open>The index of the last byte\<close>

lemma output_body_bad_slot:
  assumes "\<not> i < defaulBuffers"
  shows "output_body w l i level data = (Some (IndexOutOfRange (int i)), w, l)"
  using assms by (simp add: output_body_def output_compose_def slot_clear_def)

lemma output_release_cases:
  "output_release r w l i = Blocked w l \<or>
   (\<exists>ch. r = None \<and> output_release r w l i = Returned w (l\<lparr>bufStack := ch\<rparr>)) \<or>
   (\<exists>ch p. r = Some p \<and> output_release r w l i = Panicked p w (l\<lparr>bufStack := ch\<rparr>))"
  by (cases r; cases "chan_send defaulBuffers (bufStack l) i")
     (auto simp: output_release_def)

lemma Logger_output_no_negative_index:
  assumes "level \<in> {FatalLevel, ErrorLevel, WarnLevel, InfoLevel, DebugLevel, TraceLevel}"
  shows "Logger_output w l level data \<noteq> Panicked (IndexOutOfRange (- 1)) w' l'"
proof (cases "level > currentLevel l")
  case True
  then show ?thesis by (simp add: Logger_output_filtered)
next
  case nf: False
  show ?thesis
  proof (cases "bufStack l")
    case Nil
    then show ?thesis using nf by (simp add: Logger_output_blocked)
  next
    case (Cons i q)
    then have recv: "chan_recv (bufStack l) = Some (i, q)" by (simp add: chan_recv_def)
    define l0 where "l0 = l\<lparr>bufStack := q\<rparr>"
    have out: "Logger_output w l level data =
        (case output_body w l0 i level data of (r, w', l') \<Rightarrow> output_release r w' l' i)"
      using nf recv by (simp add: Logger_output_def l0_def)
    show ?thesis
    proof (cases "i < defaulBuffers")
      case True
      have "levelStrings_at level \<noteq> []" using assms by (rule levelStrings_at_nonempty)
      then have "timeStr l0 @ levelStrings_at level @ data \<noteq> []" by simp
      from output_body_writes [OF True this, of w]
      obtain w1 l1 where "output_body w l0 i level data = (None, w1, l1)" by blast
      then have "Logger_output w l level data = output_release None w1 l1 i"
        using out by simp
      then show ?thesis using output_release_cases [of None w1 l1 i] by auto
    next
      case False
      then have "Logger_output w l level data =
          output_release (Some (IndexOutOfRange (int i))) w l0 i"
        using out by (simp add: output_body_bad_slot)
      then show ?thesis
        using output_release_cases [of "Some (IndexOutOfRange (int i))" w l0 i] by auto
    qed
  qed
qed

text \<open>
  C9. For each of the six levels and a slot of the pool, what lines 220-223 compose is
  not empty: \<open>get()\<close> returns at least one byte, so the index \<open>len - 1\<close> of line 225 is
  not negative and lines 225-227 raise nothing. And no call of the six entry points,
  in any state of the Logger, ends in the panic of an index \<open>-1\<close>.
\<close>

theorem last_byte_index_not_negative:
  "(level \<in> {FatalLevel, ErrorLevel, WarnLevel, InfoLevel, DebugLevel, TraceLevel} \<and>
    i < defaulBuffers \<longrightarrow>
      (\<exists>l1 g l2. output_compose l i level data = Inr l1 \<and> slot_get l1 i = Inr g \<and>
         g \<noteq> [] \<and> 0 \<le> int (length g) - 1 \<and> output_newline l1 i = Inr l2)) \<and>
   LogFatal w l data \<noteq> Panicked (IndexOutOfRange (- 1)) w' l' \<and>
   LogError w l data \<noteq> Panicked (IndexOutOfRange (- 1)) w' l' \<and>
   LogWarn w l data \<noteq> Panicked (IndexOutOfRange (- 1)) w' l' \<and>
   LogInfo w l data \<noteq> Panicked (IndexOutOfRange (- 1)) w' l' \<and>
   LogDebug w l data \<noteq> Panicked (IndexOutOfRange (- 1)) w' l' \<and>
   LogTrace w l data \<noteq> Panicked (IndexOutOfRange (- 1)) w' l'"
proof (intro conjI impI)
  assume h: "level \<in> {FatalLevel, ErrorLevel, WarnLevel, InfoLevel, DebugLevel, TraceLevel} \<and>
    i < defaulBuffers"
  then have i: "i < defaulBuffers" by simp
  have p: "levelStrings_at level \<noteq> []" using h levelStrings_at_nonempty by blast
  then have ne: "timeStr l @ levelStrings_at level @ data \<noteq> []" by simp
  obtain b1 where b1: "output_compose l i level data = Inr (l\<lparr>buffers := (buffers l)(i := b1)\<rparr>)"
    "buffer_get b1 = Inr (take (nat defaulBufferSize) (timeStr l @ levelStrings_at level @ data))"
    using output_compose_take [OF i] by blast
  define l1 where "l1 = l\<lparr>buffers := (buffers l)(i := b1)\<rparr>"
  define g where "g = take (nat defaulBufferSize) (timeStr l @ levelStrings_at level @ data)"
  have get: "buffer_get (buffers l1 i) =
      Inr (take (nat defaulBufferSize) (timeStr l @ levelStrings_at level @ data))"
    using b1(2) by (simp add: l1_def)
  then have sg: "slot_get l1 i = Inr g" using i by (simp add: slot_get_def g_def)
  have "0 < nat defaulBufferSize" by (simp add: defaulBufferSize_def)
  then have gne: "g \<noteq> []" using ne unfolding g_def by simp
  then have "0 < length g" by blast
  then have idx: "0 \<le> int (length g) - 1" by linarith
  obtain b2 where "output_newline l1 i = Inr (l1\<lparr>buffers := (buffers l1)(i := b2)\<rparr>)"
    using output_newline_take [OF i get ne] by blast
  then show "\<exists>l1 g l2. output_compose l i level data = Inr l1 \<and> slot_get l1 i = Inr g \<and>
         g \<noteq> [] \<and> 0 \<le> int (length g) - 1 \<and> output_newline l1 i = Inr l2"
    using b1(1) sg gne idx unfolding l1_def by blast
qed (simp_all add: LogFatal_def LogError_def LogWarn_def LogInfo_def LogDebug_def LogTrace_def
       Logger_output_no_negative_index)

theorem last_byte_index_not_negative_witness:
  "\<exists>l1 g l2. output_compose (test_logger\<lparr>timeStr := []\<rparr>) 0 FatalLevel [] = Inr l1 \<and>
     slot_get l1 0 = Inr g \<and> g \<noteq> [] \<and> 0 \<le> int (length g) - 1 \<and>
     output_newline l1 0 = Inr l2"
  using last_byte_index_not_negative
    [of FatalLevel 0 "test_logger\<lparr>timeStr := []\<rparr>" "[]" test_world_New test_world_New test_logger]
  by (simp add: defaulBuffers_def)

section \<open>The pool\<close>

lemma slot_clear_bufStack:
  "slot_clear l i = Inr l' \<Longrightarrow> bufStack l' = bufStack l"
  "slot_clear l i = Inl (p, l') \<Longrightarrow> bufStack l' = bufStack l"
  by (auto simp: slot_clear_def split: if_splits)

lemma slot_append_bufStack:
  "slot_append l i data = Inr l' \<Longrightarrow> bufStack l' = bufStack l"
  "slot_append l i data = Inl (p, l') \<Longrightarrow> bufStack l' = bufStack l"
  by (auto simp: slot_append_def split: if_splits sum.splits)

lemma output_compose_bufStack:
  "output_compose l i level data = Inr l' \<Longrightarrow> bufStack l' = bufStack l"
  "output_compose l i level data = Inl (p, l') \<Longrightarrow> bufStack l' = bufStack l"
  unfolding output_compose_def
  by (auto split: sum.splits simp: slot_clear_bufStack slot_append_bufStack)

lemma output_newline_bufStack:
  "output_newline l i = Inr l' \<Longrightarrow> bufStack l' = bufStack l"
  "output_newline l i = Inl (p, l') \<Longrightarrow> bufStack l' = bufStack l"
  unfolding output_newline_def Let_def
  by (auto split: sum.splits if_splits simp: slot_append_bufStack)

lemma output_body_bufStack:
  assumes "output_body w l i level data = (r, w', l')"
  shows "bufStack l' = bufStack l"
  using assms unfolding output_body_def
  by (auto split: sum.splits prod.splits
        simp: output_compose_bufStack output_newline_bufStack)

lemma checked_out_same:
  assumes "holds (thr t) = holds s"
  shows "checked_out (thr(t := s)) = checked_out thr"
  unfolding checked_out_def using assms
  by (auto split: if_splits) (metis)+

lemma checked_out_take:
  assumes "holds (thr t) = None" and "holds s = Some i"
  shows "checked_out (thr(t := s)) = insert i (checked_out thr)"
  unfolding checked_out_def using assms
  by (auto split: if_splits) (metis option.distinct(1))+

lemma checked_out_give:
  assumes "holds (thr t) = Some i" and "holds s = None"
    and "\<forall>t t' i. holds (thr t) = Some i \<and> holds (thr t') = Some i \<longrightarrow> t = t'"
  shows "checked_out (thr(t := s)) = checked_out thr - {i}"
proof (rule set_eqI)
  fix x
  show "x \<in> checked_out (thr(t := s)) \<longleftrightarrow> x \<in> checked_out thr - {i}"
  proof
    assume "x \<in> checked_out (thr(t := s))"
    then obtain u where u: "holds ((thr(t := s)) u) = Some x"
      by (auto simp: checked_out_def)
    then have ut: "u \<noteq> t" using assms(2) by auto
    then have hu: "holds (thr u) = Some x" using u by simp
    then have "x \<noteq> i" using assms(1,3) ut by blast
    then show "x \<in> checked_out thr - {i}" using hu by (auto simp: checked_out_def)
  next
    assume "x \<in> checked_out thr - {i}"
    then obtain u where u: "holds (thr u) = Some x" and xi: "x \<noteq> i"
      by (auto simp: checked_out_def)
    then have "u \<noteq> t" using assms(1) by auto
    then have "holds ((thr(t := s)) u) = Some x" using u by simp
    then show "x \<in> checked_out (thr(t := s))" unfolding checked_out_def by blast
  qed
qed

lemma pool_inv_frame:
  assumes "pool_inv (w, l, thr)" and "bufStack l' = bufStack l"
  shows "pool_inv (w', l', thr)"
  using assms by (simp add: pool_inv_def)

lemma pool_inv_same:
  assumes "pool_inv (w, l, thr)" and "bufStack l' = bufStack l" and "holds (thr t) = holds s"
  shows "pool_inv (w', l', thr(t := s))"
proof -
  have h: "holds ((thr(t := s)) u) = holds (thr u)" for u using assms(3) by simp
  have co: "checked_out (thr(t := s)) = checked_out thr"
    using assms(3) by (rule checked_out_same)
  from assms(1) have d: "distinct (bufStack l)"
    and dj: "set (bufStack l) \<inter> checked_out thr = {}"
    and un: "set (bufStack l) \<union> checked_out thr = {0 ..< defaulBuffers}"
    and uq: "\<forall>t t' i. holds (thr t) = Some i \<and> holds (thr t') = Some i \<longrightarrow> t = t'"
    by (simp_all add: pool_inv_def)
  have "\<forall>u u' i. holds ((thr(t := s)) u) = Some i \<and> holds ((thr(t := s)) u') = Some i
      \<longrightarrow> u = u'"
    unfolding h by (rule uq)
  then show ?thesis
    unfolding pool_inv_def prod.case co assms(2) using d dj un by blast
qed

lemma pool_inv_acquire:
  assumes inv: "pool_inv (w, l, thr)" and t: "holds (thr t) = None"
    and recv: "chan_recv (bufStack l) = Some (i, ch)"
  shows "pool_inv (w, l\<lparr>bufStack := ch\<rparr>, thr(t := Holding i level data))"
proof -
  have bs: "bufStack l = i # ch" using recv by (auto simp: chan_recv_def split: list.splits)
  from inv have d: "distinct (bufStack l)"
    and dj: "set (bufStack l) \<inter> checked_out thr = {}"
    and un: "set (bufStack l) \<union> checked_out thr = {0 ..< defaulBuffers}"
    and uq: "\<forall>t t' i. holds (thr t) = Some i \<and> holds (thr t') = Some i \<longrightarrow> t = t'"
    by (simp_all add: pool_inv_def)
  have co: "checked_out (thr(t := Holding i level data)) = insert i (checked_out thr)"
    using t by (rule checked_out_take) simp
  have i_ch: "i \<notin> set ch" using d bs by simp
  have dj': "insert i (set ch) \<inter> checked_out thr = {}" using dj bs by simp
  have un': "insert i (set ch) \<union> checked_out thr = {0 ..< defaulBuffers}"
    using un bs by simp
  have i_co: "i \<notin> checked_out thr" using dj' by blast
  have "distinct ch" using d bs by simp
  moreover have "set ch \<inter> insert i (checked_out thr) = {}" using dj' i_ch by blast
  moreover have "set ch \<union> insert i (checked_out thr) = {0 ..< defaulBuffers}"
    unfolding un' [symmetric] by blast
  moreover have "\<forall>u u' j. holds ((thr(t := Holding i level data)) u) = Some j \<and>
      holds ((thr(t := Holding i level data)) u') = Some j \<longrightarrow> u = u'"
  proof (intro allI impI, elim conjE)
    fix u u' j
    assume a1: "holds ((thr(t := Holding i level data)) u) = Some j"
      and a2: "holds ((thr(t := Holding i level data)) u') = Some j"
    have at_t: "holds ((thr(t := Holding i level data)) t) = Some i" by simp
    have off_t: "v \<noteq> t \<Longrightarrow> holds ((thr(t := Holding i level data)) v) = holds (thr v)" for v
      by simp
    have other: "v \<noteq> t \<Longrightarrow> holds (thr v) \<noteq> Some i" for v
      using i_co unfolding checked_out_def by blast
    show "u = u'"
    proof (cases "u = t")
      case ut: True
      have ji: "j = i" using a1 at_t unfolding ut by (simp only: option.inject)
      show ?thesis
      proof (cases "u' = t")
        case True
        then show ?thesis using ut by (simp only:)
      next
        case False
        have "holds (thr u') = Some i" using a2 unfolding off_t [OF False] ji .
        then show ?thesis using other [OF False] by (simp only:)
      qed
    next
      case nut: False
      have hu: "holds (thr u) = Some j" using a1 unfolding off_t [OF nut] .
      show ?thesis
      proof (cases "u' = t")
        case True
        have "j = i" using a2 at_t unfolding True by (simp only: option.inject)
        then show ?thesis using hu other [OF nut] by (simp only:)
      next
        case False
        have "holds (thr u') = Some j" using a2 unfolding off_t [OF False] .
        then show ?thesis using hu uq by blast
      qed
    qed
  qed
  moreover have "bufStack (l\<lparr>bufStack := ch\<rparr>) = ch" by simp
  ultimately show ?thesis
    unfolding pool_inv_def prod.case co by (intro conjI) (simp_all only:)
qed

lemma pool_inv_release:
  assumes inv: "pool_inv (w, l, thr)" and t: "holds (thr t) = Some i"
    and send: "chan_send defaulBuffers (bufStack l) i = Some ch"
  shows "pool_inv (w, l\<lparr>bufStack := ch\<rparr>, thr(t := Idle))"
proof -
  have ch: "ch = bufStack l @ [i]" using send by (auto simp: chan_send_def split: if_splits)
  from inv have d: "distinct (bufStack l)"
    and dj: "set (bufStack l) \<inter> checked_out thr = {}"
    and un: "set (bufStack l) \<union> checked_out thr = {0 ..< defaulBuffers}"
    and uq: "\<forall>t t' i. holds (thr t) = Some i \<and> holds (thr t') = Some i \<longrightarrow> t = t'"
    by (simp_all add: pool_inv_def)
  have co: "checked_out (thr(t := Idle)) = checked_out thr - {i}"
    using t _ uq by (rule checked_out_give) simp
  have i_co: "i \<in> checked_out thr" unfolding checked_out_def using t by blast
  then have i_bs: "i \<notin> set (bufStack l)" using dj by blast
  have sch: "set ch = insert i (set (bufStack l))" using ch by simp
  have "distinct ch" using d i_bs ch by simp
  moreover have "set ch \<inter> (checked_out thr - {i}) = {}" unfolding sch using dj by blast
  moreover have "set ch \<union> (checked_out thr - {i}) = {0 ..< defaulBuffers}"
    unfolding sch un [symmetric] using i_co by blast
  moreover have "\<forall>u u' j. holds ((thr(t := Idle)) u) = Some j \<and>
      holds ((thr(t := Idle)) u') = Some j \<longrightarrow> u = u'"
  proof (intro allI impI, elim conjE)
    fix u u' j
    assume a1: "holds ((thr(t := Idle)) u) = Some j"
      and a2: "holds ((thr(t := Idle)) u') = Some j"
    have at_t: "holds ((thr(t := Idle)) t) = None" by simp
    have off_t: "v \<noteq> t \<Longrightarrow> holds ((thr(t := Idle)) v) = holds (thr v)" for v by simp
    have nu: "u \<noteq> t" using a1 at_t by (metis option.distinct(1))
    have nu': "u' \<noteq> t" using a2 at_t by (metis option.distinct(1))
    have "holds (thr u) = Some j" using a1 unfolding off_t [OF nu] .
    moreover have "holds (thr u') = Some j" using a2 unfolding off_t [OF nu'] .
    ultimately show "u = u'" using uq by blast
  qed
  moreover have "bufStack (l\<lparr>bufStack := ch\<rparr>) = ch" by simp
  ultimately show ?thesis
    unfolding pool_inv_def prod.case co by (intro conjI) (simp_all only:)
qed

lemma pool_inv_step:
  assumes "step c c'" and "pool_inv c"
  shows "pool_inv c'"
  using assms
proof (induction rule: step.induct)
  case (filtered thr t level l w)
  then show ?case by simp
next
  case (admitted thr t level l w data)
  have "holds (thr t) = holds (Waiting level data)" using admitted(1) by simp
  with admitted(3) refl show ?case by (rule pool_inv_same)
next
  case (acquire thr t level data l i ch w)
  have "holds (thr t) = None" using acquire(1) by simp
  with acquire(3) show ?case using acquire(2) by (rule pool_inv_acquire)
next
  case (body thr t i level data w l r w' l')
  have "holds (thr t) = holds (Exiting i r)" using body(1) by simp
  with body(3) output_body_bufStack [OF body(2)] show ?case by (rule pool_inv_same)
next
  case (release thr t i r l ch w)
  have "holds (thr t) = Some i" using release(1) by simp
  with release(3) show ?case using release(2) by (rule pool_inv_release)
next
  case (set_level l level e l' w thr)
  have "bufStack l' = bufStack l"
    using set_level(1) by (auto simp: SetLevel_def split: option.splits)
  with set_level(2) show ?case by (rule pool_inv_frame)
next
  case (set_time_format w l thr layout)
  have "bufStack (SetTimeFormat l layout) = bufStack l" by (simp add: SetTimeFormat_def)
  with set_time_format show ?case by (rule pool_inv_frame)
next
  case (tick w l thr tm)
  have "bufStack (updateTime_tick tm l) = bufStack l" by (simp add: updateTime_tick_def)
  with tick show ?case by (rule pool_inv_frame)
next
  case (reopen_fail thr t w l err w')
  from reopen_fail(3) refl show ?case by (rule pool_inv_frame)
next
  case (reopen_open thr t w l f w')
  have "holds (thr t) = holds (Reopening f)" using reopen_open(1) by simp
  with reopen_open(3) refl show ?case by (rule pool_inv_same)
next
  case (reopen_locked thr t f w l w' l')
  have "bufStack l' = bufStack l" using reopen_locked(2) by (auto simp: Reopen_locked_eq)
  moreover have "holds (thr t) = holds Idle" using reopen_locked(1) by simp
  ultimately show ?case using reopen_locked(3) by (rule pool_inv_same [rotated])
qed

lemma pool_inv_init:
  assumes "New w0 config = Some (Inr l, w)"
  shows "pool_inv (w, l, \<lambda>t. Idle)"
proof -
  have "bufStack l = [0 ..< defaulBuffers]"
    using assms New_succeeds [OF New_cases [OF assms]] by auto
  then show ?thesis by (simp add: pool_inv_def checked_out_def)
qed

lemma reachable_pool_inv: "reachable c \<Longrightarrow> pool_inv c"
proof (induction rule: reachable.induct)
  case (init w0 config l w)
  then show ?case by (rule pool_inv_init)
next
  case (after c c')
  from after(2) after(3) show ?case by (rule pool_inv_step)
qed

lemma Logger_output_releases:
  assumes "\<not> level > currentLevel l" and "bufStack l = i # q" and "length q < defaulBuffers"
  shows "\<exists>w' l'. (Logger_output w l level data = Returned w' l' \<or>
            (\<exists>p. Logger_output w l level data = Panicked p w' l')) \<and>
           bufStack l' = q @ [i]"
proof -
  have recv: "chan_recv (bufStack l) = Some (i, q)" using assms(2) by (simp add: chan_recv_def)
  obtain r w1 l1 where body: "output_body w (l\<lparr>bufStack := q\<rparr>) i level data = (r, w1, l1)"
    by (rule prod_cases3)
  have q: "bufStack l1 = q" using output_body_bufStack [OF body] by simp
  then have send: "chan_send defaulBuffers (bufStack l1) i = Some (q @ [i])"
    using assms(3) by (simp add: chan_send_def)
  have out: "Logger_output w l level data = output_release r w1 l1 i"
    using assms(1) recv body by (simp add: Logger_output_def)
  show ?thesis
  proof (cases r)
    case None
    then have "Logger_output w l level data = Returned w1 (l1\<lparr>bufStack := q @ [i]\<rparr>)"
      using out send by (simp add: output_release_def)
    then show ?thesis by (intro exI [of _ w1] exI [of _ "l1\<lparr>bufStack := q @ [i]\<rparr>"]) simp
  next
    case (Some p)
    then have "Logger_output w l level data = Panicked p w1 (l1\<lparr>bufStack := q @ [i]\<rparr>)"
      using out send by (simp add: output_release_def)
    then show ?thesis by (intro exI [of _ w1] exI [of _ "l1\<lparr>bufStack := q @ [i]\<rparr>"]) simp
  qed
qed

text \<open>
  C7. In every state that the Logger reaches from \<open>New\<close>, by any interleaving of calls:
  the channel holds no index twice, no index of the channel is checked out, the indices
  of the channel and the checked-out ones are together exactly the \<open>defaulBuffers\<close>
  indices \<open>0\<close> to \<open>defaulBuffers - 1\<close>, no index is held by two goroutines, and the
  channel has room for every index that is held, so the deferred send never blocks. And
  a call of \<open>output\<close> that takes an index sends it back once, at the end of the
  channel, whether it returns or panics; a call that returns early at the comparison
  leaves the channel as it was.
\<close>

theorem pool_invariant:
  "(reachable (w, l, thr) \<longrightarrow>
      distinct (bufStack l) \<and>
      set (bufStack l) \<inter> checked_out thr = {} \<and>
      set (bufStack l) \<union> checked_out thr = {0 ..< defaulBuffers} \<and>
      card (set (bufStack l) \<union> checked_out thr) = defaulBuffers \<and>
      length (bufStack l) + card (checked_out thr) = defaulBuffers \<and>
      (\<forall>t t' j. holds (thr t) = Some j \<and> holds (thr t') = Some j \<longrightarrow> t = t') \<and>
      (\<forall>t j. holds (thr t) = Some j \<longrightarrow>
         chan_send defaulBuffers (bufStack l) j = Some (bufStack l @ [j]))) \<and>
   (\<not> level > currentLevel l \<and> bufStack l = i # q \<and> length q < defaulBuffers \<longrightarrow>
      (\<exists>w' l'. (Logger_output w l level data = Returned w' l' \<or>
                (\<exists>p. Logger_output w l level data = Panicked p w' l')) \<and>
               bufStack l' = q @ [i])) \<and>
   (level > currentLevel l \<longrightarrow>
      bufStack (exit_Logger (Logger_output w l level data)) = bufStack l)"
proof -
  have inv: "reachable (w, l, thr) \<longrightarrow>
      distinct (bufStack l) \<and>
      set (bufStack l) \<inter> checked_out thr = {} \<and>
      set (bufStack l) \<union> checked_out thr = {0 ..< defaulBuffers} \<and>
      card (set (bufStack l) \<union> checked_out thr) = defaulBuffers \<and>
      length (bufStack l) + card (checked_out thr) = defaulBuffers \<and>
      (\<forall>t t' j. holds (thr t) = Some j \<and> holds (thr t') = Some j \<longrightarrow> t = t') \<and>
      (\<forall>t j. holds (thr t) = Some j \<longrightarrow>
         chan_send defaulBuffers (bufStack l) j = Some (bufStack l @ [j]))"
  proof
    assume "reachable (w, l, thr)"
    then have "pool_inv (w, l, thr)" by (rule reachable_pool_inv)
    then have d: "distinct (bufStack l)"
      and dj: "set (bufStack l) \<inter> checked_out thr = {}"
      and un: "set (bufStack l) \<union> checked_out thr = {0 ..< defaulBuffers}"
      and uq: "\<forall>t t' j. holds (thr t) = Some j \<and> holds (thr t') = Some j \<longrightarrow> t = t'"
      by (simp_all add: pool_inv_def)
    have "checked_out thr \<subseteq> {0 ..< defaulBuffers}" unfolding un [symmetric] by blast
    then have fin: "finite (checked_out thr)" by (rule finite_subset) simp
    have c: "card (set (bufStack l) \<union> checked_out thr) = defaulBuffers"
      unfolding un by simp
    have "card (set (bufStack l) \<union> checked_out thr) =
        card (set (bufStack l)) + card (checked_out thr)"
      using fin dj by (intro card_Un_disjoint) simp_all
    then have len: "length (bufStack l) + card (checked_out thr) = defaulBuffers"
      using c d by (simp add: distinct_card)
    have room: "\<forall>t j. holds (thr t) = Some j \<longrightarrow>
        chan_send defaulBuffers (bufStack l) j = Some (bufStack l @ [j])"
    proof (intro allI impI)
      fix t j
      assume "holds (thr t) = Some j"
      then have "j \<in> checked_out thr" unfolding checked_out_def by blast
      then have "0 < card (checked_out thr)" using fin by (auto simp: card_gt_0_iff)
      then have "length (bufStack l) < defaulBuffers" using len by linarith
      then show "chan_send defaulBuffers (bufStack l) j = Some (bufStack l @ [j])"
        by (simp add: chan_send_def)
    qed
    from d dj un c len uq room
    show "distinct (bufStack l) \<and>
        set (bufStack l) \<inter> checked_out thr = {} \<and>
        set (bufStack l) \<union> checked_out thr = {0 ..< defaulBuffers} \<and>
        card (set (bufStack l) \<union> checked_out thr) = defaulBuffers \<and>
        length (bufStack l) + card (checked_out thr) = defaulBuffers \<and>
        (\<forall>t t' j. holds (thr t) = Some j \<and> holds (thr t') = Some j \<longrightarrow> t = t') \<and>
        (\<forall>t j. holds (thr t) = Some j \<longrightarrow>
           chan_send defaulBuffers (bufStack l) j = Some (bufStack l @ [j]))"
      by (intro conjI)
  qed
  have sent: "\<not> level > currentLevel l \<and> bufStack l = i # q \<and> length q < defaulBuffers \<longrightarrow>
      (\<exists>w' l'. (Logger_output w l level data = Returned w' l' \<or>
                (\<exists>p. Logger_output w l level data = Panicked p w' l')) \<and>
               bufStack l' = q @ [i])"
    using Logger_output_releases [where level = level and l = l and i = i and q = q
        and w = w and data = data] by blast
  have early: "level > currentLevel l \<longrightarrow>
      bufStack (exit_Logger (Logger_output w l level data)) = bufStack l"
    by (simp add: Logger_output_filtered)
  from inv sent early show ?thesis by (intro conjI)
qed

theorem pool_invariant_witness:
  "reachable (test_world_New, test_logger\<lparr>bufStack := [1 ..< defaulBuffers]\<rparr>,
      (\<lambda>t. Idle)(0 := Holding 0 InfoLevel ''LogInfo'')) \<and>
   set [1 ..< defaulBuffers] \<union> checked_out ((\<lambda>t. Idle)(0 := Holding 0 InfoLevel ''LogInfo'')) =
     {0 ..< defaulBuffers} \<and>
   length [1 ..< defaulBuffers] +
     card (checked_out ((\<lambda>t. Idle)(0 := Holding 0 InfoLevel ''LogInfo''))) = defaulBuffers \<and>
   (\<exists>w' l'. (Logger_output test_world_New test_logger InfoLevel ''LogInfo'' = Returned w' l' \<or>
       (\<exists>p. Logger_output test_world_New test_logger InfoLevel ''LogInfo'' = Panicked p w' l')) \<and>
      bufStack l' = [1 ..< defaulBuffers] @ [0]) \<and>
   bufStack (exit_Logger (Logger_output test_world_New test_logger DebugLevel ''LogDebug'')) =
     bufStack test_logger"
proof -
  define thr0 :: "nat \<Rightarrow> tstate" where "thr0 = (\<lambda>t. Idle)"
  define thr1 where "thr1 = thr0(0 := Waiting InfoLevel ''LogInfo'')"
  define thr2 where "thr2 = thr1(0 := Holding 0 InfoLevel ''LogInfo'')"
  define l1 where "l1 = test_logger\<lparr>bufStack := [1 ..< defaulBuffers]\<rparr>"
  have lv: "\<not> InfoLevel > currentLevel test_logger" "DebugLevel > currentLevel test_logger"
    by (simp_all add: test_logger_fields InfoLevel_def DebugLevel_def)
  have r0: "reachable (test_world_New, test_logger, thr0)"
    unfolding thr0_def by (rule reachable.init [OF test_logger_New])
  have "thr0 0 = Idle" by (simp add: thr0_def)
  then have "step (test_world_New, test_logger, thr0) (test_world_New, test_logger, thr1)"
    unfolding thr1_def using lv(1) by (rule step.admitted)
  with r0 have r1: "reachable (test_world_New, test_logger, thr1)" by (rule reachable.after)
  have "thr1 0 = Waiting InfoLevel ''LogInfo''" by (simp add: thr1_def)
  moreover have "chan_recv (bufStack test_logger) = Some (0, [1 ..< defaulBuffers])"
    by (simp add: chan_recv_def test_logger_bufStack)
  ultimately have "step (test_world_New, test_logger, thr1) (test_world_New, l1, thr2)"
    unfolding thr2_def l1_def by (rule step.acquire)
  with r1 have r2: "reachable (test_world_New, l1, thr2)" by (rule reachable.after)
  have thr2: "thr2 = (\<lambda>t. Idle)(0 := Holding 0 InfoLevel ''LogInfo'')"
    by (simp add: thr2_def thr1_def thr0_def)
  have bs: "bufStack l1 = [1 ..< defaulBuffers]" by (simp add: l1_def)
  from pool_invariant [where w = test_world_New and l = l1 and thr = thr2] r2
  have "set (bufStack l1) \<union> checked_out thr2 = {0 ..< defaulBuffers}"
    "length (bufStack l1) + card (checked_out thr2) = defaulBuffers"
    by simp_all
  then have a: "set [1 ..< defaulBuffers] \<union>
        checked_out ((\<lambda>t. Idle)(0 := Holding 0 InfoLevel ''LogInfo'')) = {0 ..< defaulBuffers}"
    "length [1 ..< defaulBuffers] +
       card (checked_out ((\<lambda>t. Idle)(0 := Holding 0 InfoLevel ''LogInfo''))) = defaulBuffers"
    unfolding bs thr2 by simp_all
  have r: "reachable (test_world_New, test_logger\<lparr>bufStack := [1 ..< defaulBuffers]\<rparr>,
      (\<lambda>t. Idle)(0 := Holding 0 InfoLevel ''LogInfo''))"
    using r2 unfolding l1_def thr2 .
  from pool_invariant [where l = test_logger and level = InfoLevel and i = 0
      and q = "[1 ..< defaulBuffers]" and w = test_world_New and data = "''LogInfo''"]
    lv(1) test_logger_bufStack
  have b: "\<exists>w' l'. (Logger_output test_world_New test_logger InfoLevel ''LogInfo'' = Returned w' l' \<or>
       (\<exists>p. Logger_output test_world_New test_logger InfoLevel ''LogInfo'' = Panicked p w' l')) \<and>
      bufStack l' = [1 ..< defaulBuffers] @ [0]"
    by blast
  from pool_invariant [where l = test_logger and level = DebugLevel and w = test_world_New
      and data = "''LogDebug''"] lv(2)
  have c: "bufStack (exit_Logger (Logger_output test_world_New test_logger DebugLevel ''LogDebug'')) =
     bufStack test_logger"
    by blast
  from r a b c show ?thesis by (intro conjI)
qed

end
